theory Spec2Isabelle
  imports Main "HOL-Library.Multiset" "HOL-Library.Option_ord" "HOL-Library.Log_Nat"
begin

section \<open>Strings of the request\<close>

text \<open>
  A JavaScript string is a sequence of UTF-16 code units; \<open>length\<close> counts code units,
  as \<^verbatim>\<open>.length\<close> does. \<open>js\<close> turns a literal into its code units.
\<close>

type_synonym jsstring = "nat list"

definition js :: "string \<Rightarrow> jsstring" where
  "js s = map of_char s"

text \<open>
  The code units \<^verbatim>\<open>String.prototype.trim\<close> and \<^verbatim>\<open>parseInt\<close> strip: ECMAScript's
  WhiteSpace and LineTerminator.
\<close>

definition isWhiteSpace :: "nat \<Rightarrow> bool" where
  "isWhiteSpace c \<longleftrightarrow>
     c \<in> set [9, 10, 11, 12, 13, 32, 160, 5760, 8232, 8233, 8239, 8287, 12288, 65279]
     \<or> (8192 \<le> c \<and> c \<le> 8202)"

definition trimStart :: "jsstring \<Rightarrow> jsstring" where
  "trimStart s = dropWhile isWhiteSpace s"

definition trim :: "jsstring \<Rightarrow> jsstring" where
  "trim s = rev (dropWhile isWhiteSpace (rev (trimStart s)))"

text \<open>\<^verbatim>\<open>x || null\<close> on a form field: a missing or empty string becomes null.\<close>

definition or_null :: "jsstring option \<Rightarrow> jsstring option" where
  "or_null x = (case x of None \<Rightarrow> None | Some s \<Rightarrow> if s = [] then None else Some s)"

section \<open>The store\<close>

text \<open>
  The tables of \<^verbatim>\<open>initDb\<close>. A calendar date is the number of its day, a timestamp a
  number of milliseconds, a time of day a number of seconds. \<open>h_user_id\<close> and
  \<open>h_reminder_time\<close> are nullable columns. The surrogate key of a completion is read by
  none of the operations below, so a completion row is its habit and its date.
  \<open>habits_id_seq\<close> is the last value the SERIAL sequence of \<open>habits.id\<close> gave out.
\<close>

record habit =
  h_id :: nat
  h_user_id :: "nat option"
  h_name :: jsstring
  h_created_at :: int
  h_reminder_time :: "nat option"

record completion =
  c_habit_id :: nat
  c_completed_date :: int

record db =
  habits :: "habit list"
  habits_id_seq :: nat
  completions :: "completion list"

text \<open>
  The input conversions of the store for the column types TEXT and TIME are not code of
  this repository: they are parameters. \<open>None\<close> is a value the store refuses, which
  makes \<^verbatim>\<open>pool.query\<close> throw.
\<close>

record pg =
  text_in :: "jsstring \<Rightarrow> jsstring option"
  time_in :: "jsstring \<Rightarrow> nat option"

definition time_param :: "pg \<Rightarrow> jsstring option \<Rightarrow> nat option option" where
  "time_param p x = (case x of None \<Rightarrow> Some None
                     | Some s \<Rightarrow> (case time_in p s of None \<Rightarrow> None | Some t \<Rightarrow> Some (Some t)))"

text \<open>The constraints of the schema: both primary keys, the UNIQUE pair, the foreign key.\<close>

definition wf_db :: "db \<Rightarrow> bool" where
  "wf_db st \<longleftrightarrow>
     distinct (map h_id (habits st))
     \<and> list_all (\<lambda>h. h_id h \<le> habits_id_seq st) (habits st)
     \<and> distinct (completions st)
     \<and> list_all (\<lambda>c. c_habit_id c \<in> set (map h_id (habits st))) (completions st)"

subsection \<open>The statements the handlers run\<close>

text \<open>\<^verbatim>\<open>SELECT id FROM habits WHERE id = $1 AND user_id = $2\<close>\<close>

definition select_habit :: "nat \<Rightarrow> nat \<Rightarrow> db \<Rightarrow> nat list" where
  "select_habit hid uid st =
     map h_id (filter (\<lambda>h. h_id h = hid \<and> h_user_id h = Some uid) (habits st))"

text \<open>\<^verbatim>\<open>INSERT INTO habits (user_id, name, reminder_time) VALUES ($1, $2, $3)\<close>\<close>

definition insert_habit :: "pg \<Rightarrow> nat \<Rightarrow> int \<Rightarrow> jsstring \<Rightarrow> jsstring option \<Rightarrow> db \<Rightarrow> db option" where
  "insert_habit p uid now nm rt st =
     (case text_in p nm of None \<Rightarrow> None
      | Some nm' \<Rightarrow>
          (case time_param p rt of None \<Rightarrow> None
           | Some t \<Rightarrow>
               Some (st\<lparr>habits := habits st @
                          [\<lparr>h_id = Suc (habits_id_seq st), h_user_id = Some uid, h_name = nm',
                            h_created_at = now, h_reminder_time = t\<rparr>],
                        habits_id_seq := Suc (habits_id_seq st)\<rparr>)))"

text \<open>
  \<^verbatim>\<open>UPDATE habits SET name = $1, reminder_time = $2 WHERE id = $3 AND user_id = $4\<close>,
  with its row count.
\<close>

definition update_habit :: "pg \<Rightarrow> jsstring \<Rightarrow> jsstring option \<Rightarrow> nat \<Rightarrow> nat \<Rightarrow> db \<Rightarrow> (nat \<times> db) option" where
  "update_habit p nm rt hid uid st =
     (case text_in p nm of None \<Rightarrow> None
      | Some nm' \<Rightarrow>
          (case time_param p rt of None \<Rightarrow> None
           | Some t \<Rightarrow>
               Some (length (select_habit hid uid st),
                     st\<lparr>habits := map (\<lambda>h. if h_id h = hid \<and> h_user_id h = Some uid
                                            then h\<lparr>h_name := nm', h_reminder_time := t\<rparr> else h)
                                       (habits st)\<rparr>)))"

text \<open>
  \<^verbatim>\<open>DELETE FROM habits WHERE id = $1 AND user_id = $2\<close>, with its row count; the
  completions of a deleted habit go with it (ON DELETE CASCADE).
\<close>

definition delete_habit :: "nat \<Rightarrow> nat \<Rightarrow> db \<Rightarrow> nat \<times> db" where
  "delete_habit hid uid st =
     (let gone = select_habit hid uid st in
      (length gone,
       st\<lparr>habits := filter (\<lambda>h. \<not> (h_id h = hid \<and> h_user_id h = Some uid)) (habits st),
          completions := filter (\<lambda>c. c_habit_id c \<notin> set gone) (completions st)\<rparr>))"

text \<open>
  \<^verbatim>\<open>INSERT INTO completions (habit_id, completed_date) VALUES ($1, $2) ON CONFLICT DO NOTHING\<close>:
  a row that is already there is left alone; a habit id that is not in \<open>habits\<close> breaks the
  foreign key.
\<close>

definition insert_completion :: "nat \<Rightarrow> int \<Rightarrow> db \<Rightarrow> db option" where
  "insert_completion hid d st =
     (let row = \<lparr>c_habit_id = hid, c_completed_date = d\<rparr> in
      if row \<in> set (completions st) then Some st
      else if hid \<notin> set (map h_id (habits st)) then None
      else Some (st\<lparr>completions := completions st @ [row]\<rparr>))"

text \<open>\<^verbatim>\<open>DELETE FROM completions WHERE habit_id = $1 AND completed_date = $2\<close>\<close>

definition delete_completion :: "nat \<Rightarrow> int \<Rightarrow> db \<Rightarrow> db" where
  "delete_completion hid d st =
     st\<lparr>completions := filter (\<lambda>c. \<not> (c_habit_id c = hid \<and> c_completed_date c = d))
                               (completions st)\<rparr>"

section \<open>The mutating routes\<close>

text \<open>
  Each handler runs behind \<^verbatim>\<open>ensureAuthenticated\<close>: \<open>userId\<close> is \<^verbatim>\<open>req.user.id\<close>.
  The route parameter \<^verbatim>\<open>:id\<close> is taken as the habit id it denotes, \<open>today\<close> is the
  day \<^verbatim>\<open>getLocalDate()\<close> names, \<open>now\<close> the store's CURRENT_TIMESTAMP. A form field is
  missing (\<open>None\<close>) or a string. A handler returns its response and the store it leaves.
\<close>

datatype response = Redirect string | Send nat string

definition add :: "pg \<Rightarrow> nat \<Rightarrow> int \<Rightarrow> jsstring option \<Rightarrow> jsstring option \<Rightarrow> db \<Rightarrow> response \<times> db" where
  "add p userId now habitName reminderTime st =
     (case habitName of
        None \<Rightarrow> (Send 400 ''Habit name is required'', st)
      | Some n \<Rightarrow>
          if n = [] \<or> length (trim n) = 0 then (Send 400 ''Habit name is required'', st)
          else if length n > 100 then (Send 400 ''Habit name too long (max 100 characters)'', st)
          else (case insert_habit p userId now (trim n) (or_null reminderTime) st of
                  None \<Rightarrow> (Send 500 ''Insert Error: '', st)
                | Some st' \<Rightarrow> (Redirect ''/'', st')))"

definition checkin :: "nat \<Rightarrow> nat \<Rightarrow> int \<Rightarrow> db \<Rightarrow> response \<times> db" where
  "checkin userId hid today st =
     (if length (select_habit hid userId st) = 0 then (Send 403 ''Unauthorized'', st)
      else (case insert_completion hid today st of
              None \<Rightarrow> (Send 500 ''Check-in Error: '', st)
            | Some st' \<Rightarrow> (Redirect ''/'', st')))"

definition delete :: "nat \<Rightarrow> nat \<Rightarrow> db \<Rightarrow> response \<times> db" where
  "delete userId hid st =
     (case delete_habit hid userId st of
        (rowCount, st') \<Rightarrow>
          if rowCount = 0 then (Send 403 ''Unauthorized'', st') else (Redirect ''/'', st'))"

definition undo :: "nat \<Rightarrow> nat \<Rightarrow> int \<Rightarrow> db \<Rightarrow> response \<times> db" where
  "undo userId hid today st =
     (if length (select_habit hid userId st) = 0 then (Send 403 ''Unauthorized'', st)
      else (Redirect ''/'', delete_completion hid today st))"

definition edit :: "pg \<Rightarrow> nat \<Rightarrow> nat \<Rightarrow> jsstring option \<Rightarrow> jsstring option \<Rightarrow> db \<Rightarrow> response \<times> db" where
  "edit p userId hid habitName reminderTime st =
     (case habitName of
        None \<Rightarrow> (Send 400 ''Habit name is required'', st)
      | Some n \<Rightarrow>
          if n = [] \<or> length (trim n) = 0 then (Send 400 ''Habit name is required'', st)
          else if length n > 100 then (Send 400 ''Habit name too long (max 100 characters)'', st)
          else (case update_habit p (trim n) (or_null reminderTime) hid userId st of
                  None \<Rightarrow> (Send 500 ''Edit Error: '', st)
                | Some (rowCount, st') \<Rightarrow>
                    if rowCount = 0 then (Send 403 ''Unauthorized'', st') else (Redirect ''/'', st')))"

section \<open>Streaks\<close>

text \<open>
  \<^verbatim>\<open>setHours(0, 0, 0, 0)\<close> takes a \<^verbatim>\<open>Date\<close> to the local midnight of its local day, in
  whatever zone the server runs, and a \<^verbatim>\<open>DATE\<close> of the store reaches the code as the local
  midnight of its day. In one zone whose offset does not change between the days compared,
  such a \<^verbatim>\<open>Date\<close> is given by the number of its day: \<^verbatim>\<open>today.getDate() - i\<close> through
  \<^verbatim>\<open>setDate\<close> is the day \<open>i\<close> days earlier, and \<^verbatim>\<open>getTime()\<close> values are equal exactly
  when the days are (lemma \<open>local_midnight_eq\<close> below). \<open>today\<close> is the day of the local date.

  The loop of \<^verbatim>\<open>calculateStreak\<close>, which the home page repeats on \<^verbatim>\<open>habit.completions\<close>:
  for \<open>i\<close> from 0 while \<^verbatim>\<open>i < result.rows.length\<close>, when
  \<^verbatim>\<open>completedDate.getTime() === expectedDate.getTime()\<close> then \<^verbatim>\<open>streak++\<close>, else \<^verbatim>\<open>break\<close>.
\<close>

function streak_walk :: "int \<Rightarrow> int list \<Rightarrow> nat \<Rightarrow> int \<Rightarrow> int" where
  "streak_walk today rows i streak =
     (if i < length rows
      then (if rows ! i = today - int i
            then streak_walk today rows (i + 1) (streak + 1)
            else streak)
      else streak)"
  by pat_completeness auto
termination
  by (relation "measure (\<lambda>(today, rows, i, streak). length rows - i)") auto

declare streak_walk.simps [simp del]

text \<open>
  \<^verbatim>\<open>SELECT completed_date FROM completions WHERE habit_id = $1 ORDER BY completed_date DESC\<close>
\<close>

definition select_completed_desc :: "nat \<Rightarrow> db \<Rightarrow> int list" where
  "select_completed_desc habitId st =
     rev (sort (map c_completed_date (filter (\<lambda>c. c_habit_id c = habitId) (completions st))))"

text \<open>
  \<^verbatim>\<open>calculateStreak\<close>; \<open>today\<close> is the day of \<^verbatim>\<open>new Date()\<close>. With a habit id the
  query has nothing to refuse, so the \<^verbatim>\<open>catch\<close> branch (which returns 0) is not reached.
\<close>

definition calculateStreak :: "db \<Rightarrow> int \<Rightarrow> nat \<Rightarrow> int" where
  "calculateStreak st today habitId =
     (let rows = select_completed_desc habitId st in
      if length rows = 0 then 0 else streak_walk today rows 0 0)"

section \<open>Numbers\<close>

text \<open>
  A JavaScript number is an IEEE 754 double. The values of the arithmetic below are
  rationals, and \<open>fl\<close> rounds the exact result of an operation to the nearest double,
  ties to the even significand: a double is \<open>m * 2^e\<close> with \<open>2^52 \<le> m < 2^53\<close>.
  Overflow and subnormal numbers are not modelled; the operands here are array lengths
  (below \<open>2^32\<close>) and 100.
\<close>

definition ilog2 :: "rat \<Rightarrow> int" where
  \<comment> \<open>the binary exponent of a positive rational: \<open>2^(ilog2 x) \<le> x < 2^(ilog2 x + 1)\<close>\<close>
  "ilog2 x =
     (case quotient_of x of
        (a, b) \<Rightarrow> let k = bitlen a - bitlen b in if 2 powi k \<le> x then k else k - 1)"

definition round_half_even :: "rat \<Rightarrow> int" where
  "round_half_even x =
     (let n = \<lfloor>x\<rfloor>; r = x - of_int n
      in if r < 1 / 2 then n else if 1 / 2 < r then n + 1 else if even n then n else n + 1)"

definition fl :: "rat \<Rightarrow> rat" where
  "fl x =
     (if x = 0 then 0
      else let e = ilog2 \<bar>x\<bar> - 52
           in sgn x * of_int (round_half_even (\<bar>x\<bar> / 2 powi e)) * 2 powi e)"

definition js_div :: "rat \<Rightarrow> rat \<Rightarrow> rat" where
  \<comment> \<open>\<^verbatim>\<open>a / b\<close> for \<open>b \<noteq> 0\<close>\<close>
  "js_div a b = fl (a / b)"

definition js_mul :: "rat \<Rightarrow> rat \<Rightarrow> rat" where
  "js_mul a b = fl (a * b)"

definition Math_round :: "rat \<Rightarrow> int" where
  \<comment> \<open>the nearest integer, a tie going up\<close>
  "Math_round x = \<lfloor>x + 1 / 2\<rfloor>"

section \<open>The home page\<close>

text \<open>
  The rows of the one query of the page: every habit of the user, LEFT JOINed with its
  completions, \<^verbatim>\<open>ORDER BY h.created_at DESC, c.completed_date DESC\<close> (a NULL date
  first, as DESC has it). Rows that tie keep the order of the tables.
\<close>

record row =
  r_id :: nat
  r_name :: jsstring
  r_created_at :: int
  r_reminder_time :: "nat option"
  r_completed_date :: "int option"
  r_checked_today :: bool

definition join_row :: "int \<Rightarrow> habit \<Rightarrow> int option \<Rightarrow> row" where
  "join_row today h d =
     \<lparr>r_id = h_id h, r_name = h_name h, r_created_at = h_created_at h,
      r_reminder_time = h_reminder_time h, r_completed_date = d,
      r_checked_today = (d = Some today)\<rparr>"

definition left_join :: "int \<Rightarrow> db \<Rightarrow> habit \<Rightarrow> row list" where
  "left_join today st h =
     (case filter (\<lambda>c. c_habit_id c = h_id h) (completions st) of
        [] \<Rightarrow> [join_row today h None]
      | cs \<Rightarrow> map (\<lambda>c. join_row today h (Some (c_completed_date c))) cs)"

definition habit_completions :: "int \<Rightarrow> nat \<Rightarrow> db \<Rightarrow> row list" where
  "habit_completions today userId st =
     sort_key (\<lambda>r. - r_created_at r)
       (sort_key (\<lambda>r. map_option uminus (r_completed_date r))
          (concat (map (left_join today st)
                       (filter (\<lambda>h. h_user_id h = Some userId) (habits st)))))"

text \<open>The entries of \<^verbatim>\<open>habitsMap\<close>, in the order a \<^verbatim>\<open>Map\<close> keeps: first insertion.\<close>

record habit_view =
  v_id :: nat
  v_name :: jsstring
  v_created_at :: int
  v_reminderTime :: "nat option"
  v_checkedInToday :: bool
  v_streak :: int
  v_completions :: "int list"
  v_totalCompletions :: int

definition new_view :: "row \<Rightarrow> habit_view" where
  "new_view r =
     \<lparr>v_id = r_id r, v_name = r_name r, v_created_at = r_created_at r,
      v_reminderTime = r_reminder_time r, v_checkedInToday = False, v_streak = 0,
      v_completions = [], v_totalCompletions = 0\<rparr>"

definition add_row :: "row \<Rightarrow> habit_view \<Rightarrow> habit_view" where
  "add_row r h =
     (let h1 = (if r_checked_today r then h\<lparr>v_checkedInToday := True\<rparr> else h)
      in case r_completed_date r of
           None \<Rightarrow> h1
         | Some d \<Rightarrow> h1\<lparr>v_completions := v_completions h1 @ [d],
                         v_totalCompletions := v_totalCompletions h1 + 1\<rparr>)"

definition group_step :: "(nat \<times> habit_view) list \<Rightarrow> row \<Rightarrow> (nat \<times> habit_view) list" where
  "group_step m r =
     (let m1 = (if r_id r \<in> set (map fst m) then m else m @ [(r_id r, new_view r)])
      in map (\<lambda>(k, h). if k = r_id r then (k, add_row r h) else (k, h)) m1)"

definition habitsMap :: "row list \<Rightarrow> (nat \<times> habit_view) list" where
  "habitsMap rows = foldl group_step [] rows"

text \<open>
  The zone of the server is its offset from UTC in minutes, east positive (the negative of
  \<^verbatim>\<open>getTimezoneOffset()\<close>), taken to be the same on all the days compared. Instants are
  counted in minutes since the epoch.
\<close>

definition utc_midnight :: "int \<Rightarrow> int" where
  \<comment> \<open>\<^verbatim>\<open>new Date('YYYY-MM-DD')\<close>: a date without a time is read as UTC\<close>
  "utc_midnight day = day * 1440"

definition local_midnight :: "int \<Rightarrow> int \<Rightarrow> int" where
  \<comment> \<open>the \<^verbatim>\<open>Date\<close> that a \<^verbatim>\<open>DATE\<close> column arrives as: midnight of the day in local time\<close>
  "local_midnight zone day = day * 1440 - zone"

definition local_day :: "int \<Rightarrow> int \<Rightarrow> int" where
  \<comment> \<open>the day of the local date of an instant, where \<^verbatim>\<open>setHours(0, 0, 0, 0)\<close> puts it\<close>
  "local_day zone t = (t + zone) div 1440"

definition setDate_back :: "int \<Rightarrow> int \<Rightarrow> int" where
  \<comment> \<open>\<^verbatim>\<open>d.setDate(d.getDate() - i)\<close>: the same local time \<open>i\<close> days earlier\<close>
  "setDate_back i t = t - i * 1440"

text \<open>
  The streak loop of the page is the loop of \<^verbatim>\<open>calculateStreak\<close> on \<^verbatim>\<open>habit.completions\<close>,
  but its first day is \<^verbatim>\<open>todayDate = new Date(today)\<close> after \<^verbatim>\<open>setHours(0, 0, 0, 0)\<close>,
  where \<^verbatim>\<open>today\<close> is the string of \<^verbatim>\<open>getLocalDate()\<close>: UTC midnight of the local date,
  moved to the local midnight of the local day it falls on.
\<close>

definition todayDate :: "int \<Rightarrow> int \<Rightarrow> int" where
  "todayDate zone today = local_day zone (utc_midnight today)"

definition enrich :: "int \<Rightarrow> int \<Rightarrow> habit_view \<Rightarrow> habit_view" where
  "enrich zone today h = h\<lparr>v_streak := streak_walk (todayDate zone today) (v_completions h) 0 0\<rparr>"

text \<open>
  \<^verbatim>\<open>Array.prototype.sort\<close> with a comparator: the stable sort, here by insertion.
  \<^verbatim>\<open>localeCompare\<close> depends on the locale of the host and is a parameter.
\<close>

fun insort_cmp :: "('a \<Rightarrow> 'a \<Rightarrow> int) \<Rightarrow> 'a \<Rightarrow> 'a list \<Rightarrow> 'a list" where
  "insort_cmp cmp x [] = [x]"
| "insort_cmp cmp x (y # ys) = (if cmp x y \<le> 0 then x # y # ys else y # insort_cmp cmp x ys)"

definition js_sort :: "('a \<Rightarrow> 'a \<Rightarrow> int) \<Rightarrow> 'a list \<Rightarrow> 'a list" where
  "js_sort cmp xs = foldr (insort_cmp cmp) xs []"

definition sort_habits :: "(jsstring \<Rightarrow> jsstring \<Rightarrow> int) \<Rightarrow> jsstring \<Rightarrow> habit_view list \<Rightarrow> habit_view list" where
  "sort_habits localeCompare sortBy hs =
     (if sortBy = js ''oldest'' then js_sort (\<lambda>a b. v_created_at a - v_created_at b) hs
      else if sortBy = js ''streak'' then js_sort (\<lambda>a b. v_streak b - v_streak a) hs
      else if sortBy = js ''alphabetical''
        then js_sort (\<lambda>a b. localeCompare (v_name a) (v_name b)) hs
      else js_sort (\<lambda>a b. v_created_at b - v_created_at a) hs)"

record stats =
  totalHabits :: nat
  completedToday :: nat
  totalCompletionsThisWeek :: int
  totalAllTime :: int
  completionRate :: int

text \<open>
  \<^verbatim>\<open>weekAgo\<close> is \<^verbatim>\<open>new Date(today)\<close>, UTC midnight of the local date, moved back by 7
  days with \<^verbatim>\<open>setDate\<close>, and a completion counts when \<^verbatim>\<open>new Date(d) >= weekAgo\<close>, where
  \<^verbatim>\<open>d\<close> is the local midnight of the completion's day.
\<close>

definition stats_of :: "int \<Rightarrow> int \<Rightarrow> habit_view list \<Rightarrow> stats" where
  "stats_of zone today enrichedHabits =
     \<lparr>totalHabits = length enrichedHabits,
      completedToday = length (filter v_checkedInToday enrichedHabits),
      totalCompletionsThisWeek =
        foldl (\<lambda>sum h. let weekAgo = setDate_back 7 (utc_midnight today)
                        in sum + int (length (filter (\<lambda>d. weekAgo \<le> local_midnight zone d)
                                                     (v_completions h))))
              0 enrichedHabits,
      totalAllTime = foldl (\<lambda>sum h. sum + v_totalCompletions h) 0 enrichedHabits,
      completionRate =
        (if length enrichedHabits > 0
         then Math_round (js_mul (js_div (of_nat (length (filter v_checkedInToday enrichedHabits)))
                                         (of_nat (length enrichedHabits))) 100)
         else 0)\<rparr>"

text \<open>
  \<^verbatim>\<open>app.get('/')\<close>: what the page is rendered from. \<open>sortParam\<close> is \<^verbatim>\<open>req.query.sort\<close>,
  \<open>today\<close> the day of \<^verbatim>\<open>getLocalDate()\<close>, \<open>zone\<close> the zone of the server.
\<close>

definition home :: "(jsstring \<Rightarrow> jsstring \<Rightarrow> int) \<Rightarrow> int \<Rightarrow> nat \<Rightarrow> int \<Rightarrow> jsstring option \<Rightarrow> db
    \<Rightarrow> habit_view list \<times> stats" where
  "home localeCompare zone userId today sortParam st =
     (let sortBy = (case or_null sortParam of None \<Rightarrow> js ''newest'' | Some s \<Rightarrow> s);
          rows = habit_completions today userId st;
          enrichedHabits = sort_habits localeCompare sortBy
                             (map (enrich zone today \<circ> snd) (habitsMap rows))
      in (enrichedHabits, stats_of zone today enrichedHabits))"

text \<open>
  What the grouping loop leaves under a key: the fields of the first row of the habit, the
  flag of any of its rows, and the dates of its rows in their order.
\<close>

definition rows_of :: "nat \<Rightarrow> row list \<Rightarrow> row list" where
  "rows_of k rows = filter (\<lambda>r. r_id r = k) rows"

definition grouped :: "nat \<Rightarrow> row list \<Rightarrow> habit_view" where
  "grouped k rows =
     (new_view (hd (rows_of k rows)))
       \<lparr>v_checkedInToday := list_ex r_checked_today (rows_of k rows),
        v_completions := List.map_filter r_completed_date (rows_of k rows),
        v_totalCompletions := int (length (List.map_filter r_completed_date (rows_of k rows)))\<rparr>"

definition first_keys :: "nat list \<Rightarrow> nat list" where
  "first_keys ks = rev (remdups (rev ks))"

text \<open>
  What the page shows for one habit, read off the store: its completion dates in
  descending order, whether today is among them, their number, and the streak that
  \<^verbatim>\<open>calculateStreak\<close> finds when its day is \<open>todayDate\<close>.
\<close>

definition view_of :: "int \<Rightarrow> int \<Rightarrow> db \<Rightarrow> habit \<Rightarrow> habit_view" where
  "view_of zone today st h =
     (let ds = select_completed_desc (h_id h) st
      in \<lparr>v_id = h_id h, v_name = h_name h, v_created_at = h_created_at h,
          v_reminderTime = h_reminder_time h, v_checkedInToday = (today \<in> set ds),
          v_streak = calculateStreak st (todayDate zone today) (h_id h), v_completions = ds,
          v_totalCompletions = int (length ds)\<rparr>)"

text \<open>
  The percentage of the specification, \<open>completedToday / totalHabits \<times> 100\<close>, as an exact
  rational number.
\<close>

definition percentage :: "nat \<Rightarrow> nat \<Rightarrow> rat" where
  "percentage c n = 100 * of_nat c / of_nat n"

section \<open>The calendar query\<close>

text \<open>
  \<^verbatim>\<open>parseInt(string)\<close> with no radix: leading white space is skipped, a sign is read,
  \<^verbatim>\<open>0x\<close> or \<^verbatim>\<open>0X\<close> switches to radix 16, and the longest run of digits is the value;
  whatever follows the digits is ignored. \<open>None\<close> is \<^verbatim>\<open>NaN\<close>: there is no digit. The
  value is kept exact (a double is exact below \<open>2^53\<close>).
\<close>

definition digit_value :: "nat \<Rightarrow> nat \<Rightarrow> nat option" where
  "digit_value R c =
     (let v = (if 48 \<le> c \<and> c \<le> 57 then Some (c - 48)
               else if 97 \<le> c \<and> c \<le> 122 then Some (c - 87)
               else if 65 \<le> c \<and> c \<le> 90 then Some (c - 55)
               else None)
      in case v of None \<Rightarrow> None | Some d \<Rightarrow> if d < R then Some d else None)"

definition parseInt :: "jsstring \<Rightarrow> int option" where
  "parseInt inputString =
     (let S = trimStart inputString;
          sign = (if S \<noteq> [] \<and> hd S = 45 then - 1 else 1 :: int);
          S1 = (if S \<noteq> [] \<and> (hd S = 43 \<or> hd S = 45) then tl S else S);
          hex = (2 \<le> length S1 \<and> hd S1 = 48 \<and> (S1 ! 1 = 120 \<or> S1 ! 1 = 88));
          R = (if hex then 16 else 10);
          S2 = (if hex then drop 2 S1 else S1);
          Z = takeWhile (\<lambda>c. digit_value R c \<noteq> None) S2
      in if Z = [] then None
         else Some (sign * int (foldl (\<lambda>n c. n * R + the (digit_value R c)) 0 Z)))"

text \<open>
  The day arithmetic of ECMAScript's \<^verbatim>\<open>Date\<close>, in whole days since 1 January 1970 (the
  server runs in UTC, and every time of day here is midnight).
\<close>

definition DaysInYear :: "int \<Rightarrow> int" where
  "DaysInYear y =
     (if y mod 4 \<noteq> 0 then 365 else if y mod 100 \<noteq> 0 then 366
      else if y mod 400 \<noteq> 0 then 365 else 366)"

definition DayFromYear :: "int \<Rightarrow> int" where
  "DayFromYear y = 365 * (y - 1970) + (y - 1969) div 4 - (y - 1901) div 100 + (y - 1601) div 400"

lemma div_succ:
  fixes x k :: int
  assumes "0 < k"
  shows "(x + 1) div k = x div k + (if (x + 1) mod k = 0 then 1 else 0)"
proof (cases "x mod k + 1 < k")
  case True
  have e: "x + 1 = k * (x div k) + (x mod k + 1)" by simp
  have r: "0 \<le> x mod k + 1" using assms by (simp add: add_nonneg_nonneg)
  have "(x + 1) div k = x div k"
    using int_div_pos_eq [OF e r True] .
  moreover have "(x + 1) mod k = x mod k + 1"
    using int_mod_pos_eq [OF e r True] .
  moreover have "0 \<le> x mod k" using assms by simp
  ultimately show ?thesis by simp
next
  case False
  moreover have "x mod k < k" using assms by simp
  ultimately have m: "x mod k + 1 = k" by simp
  have "k * (x div k) + x mod k = x" by (rule mult_div_mod_eq)
  with m have "x + 1 = k * (x div k) + k" by linarith
  then have e: "x + 1 = k * (x div k + 1) + 0" by (simp add: distrib_left)
  have "(x + 1) div k = x div k + 1"
    using int_div_pos_eq [OF e _ assms] by simp
  moreover have "(x + 1) mod k = 0"
    using int_mod_pos_eq [OF e _ assms] by simp
  ultimately show ?thesis by simp
qed

lemma div_4_step: "(y - 1968) div 4 = (y - 1969) div 4 + (if y mod 4 = 0 then 1 else 0)" for y :: int
proof -
  have "(y - 1968) mod 4 = y mod 4" using mod_mult_self1 [of y "- 492" 4] by simp
  with div_succ [of 4 "y - 1969"] show ?thesis by simp
qed

lemma div_100_step: "(y - 1900) div 100 = (y - 1901) div 100 + (if y mod 100 = 0 then 1 else 0)" for y :: int
proof -
  have "(y - 1900) mod 100 = y mod 100" using mod_mult_self1 [of y "- 19" 100] by simp
  with div_succ [of 100 "y - 1901"] show ?thesis by simp
qed

lemma div_400_step: "(y - 1600) div 400 = (y - 1601) div 400 + (if y mod 400 = 0 then 1 else 0)" for y :: int
proof -
  have "(y - 1600) mod 400 = y mod 400" using mod_mult_self1 [of y "- 4" 400] by simp
  with div_succ [of 400 "y - 1601"] show ?thesis by simp
qed

lemma mod_4_100: "y mod 100 = 0 \<Longrightarrow> y mod 4 = 0" for y :: int
proof -
  assume "y mod 100 = 0"
  then have "100 dvd y" by (simp add: dvd_eq_mod_eq_0)
  moreover have "(4::int) dvd 100" by simp
  ultimately have "4 dvd y" by (rule dvd_trans [rotated])
  then show ?thesis by (simp add: dvd_eq_mod_eq_0)
qed

lemma mod_100_400: "y mod 400 = 0 \<Longrightarrow> y mod 100 = 0" for y :: int
proof -
  assume "y mod 400 = 0"
  then have "400 dvd y" by (simp add: dvd_eq_mod_eq_0)
  moreover have "(100::int) dvd 400" by simp
  ultimately have "100 dvd y" by (rule dvd_trans [rotated])
  then show ?thesis by (simp add: dvd_eq_mod_eq_0)
qed

lemma DayFromYear_step: "DayFromYear (y + 1) = DayFromYear y + DaysInYear y"
proof -
  have "DayFromYear (y + 1)
      = 365 * (y - 1970) + 365 + (y - 1968) div 4 - (y - 1900) div 100 + (y - 1600) div 400"
    by (simp add: DayFromYear_def)
  also have "\<dots> = DayFromYear y + (365 + (if y mod 4 = 0 then 1 else 0)
      - (if y mod 100 = 0 then 1 else 0) + (if y mod 400 = 0 then 1 else 0))"
    by (simp only: div_4_step div_100_step div_400_step DayFromYear_def)
  also have "365 + (if y mod 4 = 0 then 1 else 0)
      - (if y mod 100 = 0 then 1 else 0) + (if y mod 400 = 0 then 1 else 0) = DaysInYear y"
    using mod_4_100 [of y] mod_100_400 [of y] by (auto simp: DaysInYear_def)
  finally show ?thesis .
qed

text \<open>
  \<^verbatim>\<open>YearFromTime\<close> is the largest year that starts on or before the day: found by
  stepping up from a year that is early enough.
\<close>

function year_up :: "int \<Rightarrow> int \<Rightarrow> int" where
  "year_up d y = (if DayFromYear (y + 1) \<le> d then year_up d (y + 1) else y)"
  by pat_completeness auto
termination
proof (relation "measure (\<lambda>(d, y). nat (d + 1 - DayFromYear (y + 1)))")
  show "wf (measure (\<lambda>(d, y). nat (d + 1 - DayFromYear (y + 1))))" by simp
next
  fix d y :: int
  assume "DayFromYear (y + 1) \<le> d"
  moreover have "DayFromYear (y + 1 + 1) = DayFromYear (y + 1) + DaysInYear (y + 1)"
    by (rule DayFromYear_step)
  moreover have "0 < DaysInYear (y + 1)" by (simp add: DaysInYear_def)
  ultimately show "((d, y + 1), (d, y)) \<in> measure (\<lambda>(d, y). nat (d + 1 - DayFromYear (y + 1)))"
    by simp
qed

declare year_up.simps [simp del]

definition YearFromDay :: "int \<Rightarrow> int" where
  "YearFromDay d = year_up d (1970 + (if 0 \<le> d then d div 366 else d div 365))"

definition InLeapYear :: "int \<Rightarrow> int" where
  "InLeapYear d = (if DaysInYear (YearFromDay d) = 366 then 1 else 0)"

definition DayWithinYear :: "int \<Rightarrow> int" where
  "DayWithinYear d = d - DayFromYear (YearFromDay d)"

definition MonthFromDay :: "int \<Rightarrow> int" where
  "MonthFromDay d =
     (let w = DayWithinYear d; l = InLeapYear d
      in if w < 31 then 0 else if w < 59 + l then 1 else if w < 90 + l then 2
         else if w < 120 + l then 3 else if w < 151 + l then 4 else if w < 181 + l then 5
         else if w < 212 + l then 6 else if w < 243 + l then 7 else if w < 273 + l then 8
         else if w < 304 + l then 9 else if w < 334 + l then 10 else 11)"

definition DateFromDay :: "int \<Rightarrow> int" where
  "DateFromDay d =
     (let w = DayWithinYear d; l = InLeapYear d; m = MonthFromDay d
      in if m = 0 then w + 1 else if m = 1 then w - 30 else if m = 2 then w - 58 - l
         else if m = 3 then w - 89 - l else if m = 4 then w - 119 - l
         else if m = 5 then w - 150 - l else if m = 6 then w - 180 - l
         else if m = 7 then w - 211 - l else if m = 8 then w - 242 - l
         else if m = 9 then w - 272 - l else if m = 10 then w - 303 - l else w - 333 - l)"

text \<open>
  \<^verbatim>\<open>MakeDay(year, month, date)\<close>: the month counts from 0 and may run past 11, the
  date may be 0 or less. \<open>month_start\<close> is the day within the year on which a month begins.
\<close>

definition month_start :: "int \<Rightarrow> int \<Rightarrow> int" where
  "month_start l mn =
     (if mn = 0 then 0 else if mn = 1 then 31 else if mn = 2 then 59 + l
      else if mn = 3 then 90 + l else if mn = 4 then 120 + l else if mn = 5 then 151 + l
      else if mn = 6 then 181 + l else if mn = 7 then 212 + l else if mn = 8 then 243 + l
      else if mn = 9 then 273 + l else if mn = 10 then 304 + l else 334 + l)"

definition MakeDay :: "int \<Rightarrow> int \<Rightarrow> int \<Rightarrow> int" where
  "MakeDay year month date =
     (let ym = year + month div 12; mn = month mod 12;
          l = (if DaysInYear ym = 366 then 1 else 0)
      in DayFromYear ym + month_start l mn + date - 1)"

text \<open>
  \<^verbatim>\<open>new Date(year, month, date)\<close>: a year from 0 to 99 means 1900 + year, and a time
  beyond 100,000,000 days from the epoch is no date (\<open>None\<close>, the invalid date, whose
  \<^verbatim>\<open>getDate()\<close> is \<^verbatim>\<open>NaN\<close>).
\<close>

definition new_Date :: "int \<Rightarrow> int \<Rightarrow> int \<Rightarrow> int option" where
  "new_Date year month date =
     (let yr = (if 0 \<le> year \<and> year \<le> 99 then 1900 + year else year);
          day = MakeDay yr month date
      in if \<bar>day\<bar> \<le> 100000000 then Some day else None)"

definition getDate :: "int option \<Rightarrow> int option" where
  "getDate t = map_option DateFromDay t"

text \<open>Numbers in a template literal, and \<^verbatim>\<open>padStart(2, '0')\<close>.\<close>

fun show_nat :: "nat \<Rightarrow> jsstring" where
  "show_nat n = (if n < 10 then [48 + n] else show_nat (n div 10) @ [48 + n mod 10])"

declare show_nat.simps [simp del]

definition Number_toString :: "int option \<Rightarrow> jsstring" where
  "Number_toString x =
     (case x of None \<Rightarrow> js ''NaN''
      | Some i \<Rightarrow> if i < 0 then 45 # show_nat (nat (- i)) else show_nat (nat i))"

definition padStart2 :: "jsstring \<Rightarrow> jsstring" where
  "padStart2 s = replicate (2 - length s) 48 @ s"

text \<open>
  \<^verbatim>\<open>app.get('/api/calendar')\<close> up to the parameters of its query: the answer to a
  request it refuses, or \<^verbatim>\<open>startDate\<close> and \<^verbatim>\<open>endDate\<close>. A query parameter is
  missing (\<open>None\<close>) or a string.
\<close>

definition calendar_window :: "jsstring option \<Rightarrow> jsstring option \<Rightarrow> nat \<times> string + jsstring \<times> jsstring" where
  "calendar_window year month =
     (case (or_null year, or_null month) of
        (Some y, Some m) \<Rightarrow>
          (case (parseInt y, parseInt m) of
             (Some yearNum, Some monthNum) \<Rightarrow>
               if monthNum < 1 \<or> monthNum > 12 then Inl (400, ''Invalid year or month'')
               else
                 let ym = Number_toString (Some yearNum) @ js ''-''
                            @ padStart2 (Number_toString (Some monthNum)) @ js ''-''
                 in Inr (ym @ js ''01'',
                         ym @ Number_toString (getDate (new_Date yearNum monthNum 0)))
           | _ \<Rightarrow> Inl (400, ''Invalid year or month''))
      | _ \<Rightarrow> Inl (400, ''Year and month are required''))"

text \<open>
  What the specification asks of the last day, in its own terms: the length of a month
  of the Gregorian calendar.
\<close>

definition gregorian_month_length :: "int \<Rightarrow> int \<Rightarrow> int" where
  "gregorian_month_length y m =
     (if m = 2 then (if y mod 4 = 0 \<and> (y mod 100 \<noteq> 0 \<or> y mod 400 = 0) then 29 else 28)
      else if m = 4 \<or> m = 6 \<or> m = 9 \<or> m = 11 then 30 else 31)"

section \<open>Sample data\<close>

text \<open>
  A store conversion for the examples: TEXT takes every string as it is, TIME takes
  \<^verbatim>\<open>HH:MM\<close> and gives seconds.
\<close>

definition hhmm :: "jsstring \<Rightarrow> nat option" where
  "hhmm s = (case s of
      [a, b, c, d, e] \<Rightarrow>
        if c = 58 \<and> list_all (\<lambda>x. 48 \<le> x \<and> x \<le> 57) [a, b, d, e]
           \<and> (a - 48) * 10 + (b - 48) < 24 \<and> (d - 48) * 10 + (e - 48) < 60
        then Some ((((a - 48) * 10 + (b - 48)) * 60 + (d - 48) * 10 + (e - 48)) * 60)
        else None
    | _ \<Rightarrow> None)"

definition sample_pg :: pg where
  "sample_pg = \<lparr>text_in = Some, time_in = hhmm\<rparr>"

definition water_habit :: habit where
  "water_habit = \<lparr>h_id = 1, h_user_id = Some 1, h_name = js ''Drink water'',
                   h_created_at = 1000, h_reminder_time = Some 28800\<rparr>"

definition read_habit :: habit where
  "read_habit = \<lparr>h_id = 2, h_user_id = Some 2, h_name = js ''Read'',
                  h_created_at = 2000, h_reminder_time = None\<rparr>"

definition sample_db :: db where
  "sample_db =
     \<lparr>habits = [water_habit, read_habit],
      habits_id_seq = 2,
      completions = [\<lparr>c_habit_id = 1, c_completed_date = 19800\<rparr>,
                     \<lparr>c_habit_id = 1, c_completed_date = 19799\<rparr>,
                     \<lparr>c_habit_id = 2, c_completed_date = 19800\<rparr>]\<rparr>"

definition padded_name :: jsstring where
  "padded_name = js ''a'' @ replicate 100 32"

definition edited_db :: db where
  "edited_db = sample_db\<lparr>habits := [water_habit\<lparr>h_name := js ''Walk'', h_reminder_time := None\<rparr>,
                                     read_habit]\<rparr>"

text \<open>A stand-in for \<^verbatim>\<open>localeCompare\<close>: the order of the code units.\<close>

fun unit_compare :: "jsstring \<Rightarrow> jsstring \<Rightarrow> int" where
  "unit_compare [] [] = 0"
| "unit_compare [] (y # ys) = - 1"
| "unit_compare (x # xs) [] = 1"
| "unit_compare (x # xs) (y # ys) =
     (if x < y then - 1 else if y < x then 1 else unit_compare xs ys)"

definition week_db :: db where
  "week_db =
     \<lparr>habits = [water_habit],
      habits_id_seq = 1,
      completions = [\<lparr>c_habit_id = 1, c_completed_date = 19793\<rparr>]\<rparr>"

definition rate_views :: "habit_view list" where
  "rate_views =
     replicate 29 \<lparr>v_id = 1, v_name = js ''Drink water'', v_created_at = 1000,
                    v_reminderTime = None, v_checkedInToday = True, v_streak = 1,
                    v_completions = [19800], v_totalCompletions = 1\<rparr>
     @ replicate 171 \<lparr>v_id = 2, v_name = js ''Read'', v_created_at = 2000,
                       v_reminderTime = None, v_checkedInToday = False, v_streak = 0,
                       v_completions = [], v_totalCompletions = 0\<rparr>"

text \<open>A list of \<open>n\<close> habits of which the first \<open>c\<close> are checked in today.\<close>

definition sample_views :: "nat \<Rightarrow> nat \<Rightarrow> habit_view list" where
  "sample_views c n =
     replicate c \<lparr>v_id = 1, v_name = js ''Drink water'', v_created_at = 1000,
                   v_reminderTime = None, v_checkedInToday = True, v_streak = 1,
                   v_completions = [19800], v_totalCompletions = 1\<rparr>
     @ replicate (n - c) \<lparr>v_id = 2, v_name = js ''Read'', v_created_at = 2000,
                           v_reminderTime = None, v_checkedInToday = False, v_streak = 0,
                           v_completions = [], v_totalCompletions = 0\<rparr>"

section \<open>Properties of the mutating routes\<close>

lemmas sample_defs = sample_db_def water_habit_def read_habit_def sample_pg_def js_def
lemmas trim_defs = trim_def trimStart_def isWhiteSpace_def

lemma wf_sample: "wf_db sample_db"
  by (simp add: wf_db_def sample_defs)

lemma select_habit_other:
  assumes "wf_db st" "h \<in> set (habits st)" "h_user_id h = Some A" "B \<noteq> A"
  shows "select_habit (h_id h) B st = []"
proof -
  have d: "distinct (map h_id (habits st))" using assms(1) by (simp add: wf_db_def)
  have "\<And>x. x \<in> set (habits st) \<Longrightarrow> h_id x = h_id h \<Longrightarrow> x = h"
    using d assms(2) by (meson distinct_map inj_onD)
  then have "filter (\<lambda>x. h_id x = h_id h \<and> h_user_id x = Some B) (habits st) = []"
    using assms(3,4) by (fastforce simp: filter_empty_conv)
  then show ?thesis by (simp add: select_habit_def)
qed

lemma select_habit_Nil_iff:
  "select_habit hid uid st = [] \<longleftrightarrow> (\<forall>h \<in> set (habits st). \<not> (h_id h = hid \<and> h_user_id h = Some uid))"
  by (auto simp: select_habit_def filter_empty_conv)

lemma db_same: "st\<lparr>habits := habits st\<rparr> = st" "st\<lparr>completions := completions st\<rparr> = st"
  by simp_all

lemma delete_habit_none:
  assumes "select_habit hid uid st = []"
  shows "delete_habit hid uid st = (0, st)"
proof -
  have "filter (\<lambda>h. \<not> (h_id h = hid \<and> h_user_id h = Some uid)) (habits st) = habits st"
    using assms by (simp add: select_habit_Nil_iff)
  then show ?thesis using assms by (simp add: delete_habit_def)
qed

lemma update_habit_none:
  assumes "select_habit hid uid st = []" "update_habit p nm rt hid uid st = Some (n, st')"
  shows "n = 0 \<and> st' = st"
proof -
  have "map (\<lambda>h. if h_id h = hid \<and> h_user_id h = Some uid then h\<lparr>h_name := a, h_reminder_time := t\<rparr> else h) (habits st) = habits st" for a t
    using assms(1) by (intro map_idI) (auto simp: select_habit_Nil_iff)
  then show ?thesis using assms
    by (auto simp: update_habit_def split: option.splits)
qed


lemma length_trim_le: "length (trim n) \<le> length n"
proof -
  have "length (trim n) \<le> length (trimStart n)"
    using length_dropWhile_le [of isWhiteSpace "rev (trimStart n)"] by (simp add: trim_def)
  also have "\<dots> \<le> length n"
    by (simp add: trimStart_def length_dropWhile_le)
  finally show ?thesis .
qed

lemma insert_completion_new:
  assumes "\<lparr>c_habit_id = hid, c_completed_date = d\<rparr> \<notin> set (completions st)"
    and "hid \<in> set (map h_id (habits st))"
  shows "insert_completion hid d st =
           Some (st\<lparr>completions := completions st @ [\<lparr>c_habit_id = hid, c_completed_date = d\<rparr>]\<rparr>)"
  using assms by (simp add: insert_completion_def Let_def)

lemma insert_completion_old:
  assumes "\<lparr>c_habit_id = hid, c_completed_date = d\<rparr> \<in> set (completions st)"
  shows "insert_completion hid d st = Some st"
  using assms by (simp add: insert_completion_def)

lemma select_habit_id: "select_habit hid uid st \<noteq> [] \<Longrightarrow> hid \<in> set (map h_id (habits st))"
  by (auto simp: select_habit_def filter_empty_conv)

lemma select_habit_completions [simp]:
  "select_habit hid uid (st\<lparr>completions := cs\<rparr>) = select_habit hid uid st"
  by (simp add: select_habit_def)

lemma count_row_distinct:
  "distinct xs \<Longrightarrow> x \<in> set xs \<Longrightarrow> length (filter (\<lambda>c. c = x) xs) = 1"
  by (induction xs) (auto simp: filter_empty_conv)

lemma completion_neq_iff:
  "(c \<noteq> \<lparr>c_habit_id = hid, c_completed_date = d\<rparr>) = (\<not> (c_habit_id c = hid \<and> c_completed_date c = d))"
  by (cases c) auto

lemma trim_Nil [simp]: "trim [] = []"
  by (simp add: trim_def trimStart_def)

lemma update_habit_Some:
  assumes "update_habit p nm rt hid uid st = Some (k, st')"
  obtains nm' t where "text_in p nm = Some nm'" and "time_param p rt = Some t"
    and "k = length (select_habit hid uid st)"
    and "st' = st\<lparr>habits := map (\<lambda>h. if h_id h = hid \<and> h_user_id h = Some uid
                                 then h\<lparr>h_name := nm', h_reminder_time := t\<rparr> else h) (habits st)\<rparr>"
  using assms by (auto simp: update_habit_def split: option.splits)

lemma select_habit_map:
  assumes "\<And>h. h_id (f h) = h_id h \<and> h_user_id (f h) = h_user_id h"
  shows "select_habit hid uid (st\<lparr>habits := map f (habits st)\<rparr>) = select_habit hid uid st"
proof -
  have "map h_id (filter (\<lambda>h. h_id h = hid \<and> h_user_id h = Some uid) (map f xs))
      = map h_id (filter (\<lambda>h. h_id h = hid \<and> h_user_id h = Some uid) xs)" for xs
    by (induction xs) (simp_all add: assms)
  then show ?thesis by (simp add: select_habit_def)
qed

lemma list_all_mapI: "(\<And>x. R (f x)) \<Longrightarrow> list_all R (map f xs)"
  by (induction xs) simp_all

lemma update_habit_names:
  assumes "update_habit p nm rt hid uid st = Some (k, st')"
  shows "list_all (\<lambda>h. h_id h = hid \<and> h_user_id h = Some uid \<longrightarrow> Some (h_name h) = text_in p nm) (habits st')"
    and "select_habit hid uid st' = select_habit hid uid st"
    and "k = length (select_habit hid uid st)"
proof -
  from assms obtain nm' t where nm': "text_in p nm = Some nm'"
    and k: "k = length (select_habit hid uid st)"
    and st': "st' = st\<lparr>habits := map (\<lambda>h. if h_id h = hid \<and> h_user_id h = Some uid
                                 then h\<lparr>h_name := nm', h_reminder_time := t\<rparr> else h) (habits st)\<rparr>"
    by (rule update_habit_Some)
  show "list_all (\<lambda>h. h_id h = hid \<and> h_user_id h = Some uid \<longrightarrow> Some (h_name h) = text_in p nm) (habits st')"
  proof -
    let ?f = "\<lambda>h. if h_id h = hid \<and> h_user_id h = Some uid
                  then h\<lparr>h_name := nm', h_reminder_time := t\<rparr> else h"
    have "h_id (?f h) = hid \<and> h_user_id (?f h) = Some uid \<longrightarrow> Some (h_name (?f h)) = Some nm'" for h
      by (simp; blast)
    then have "list_all (\<lambda>h. h_id h = hid \<and> h_user_id h = Some uid \<longrightarrow> Some (h_name h) = Some nm')
                 (map ?f (habits st))"
      by (rule list_all_mapI)
    moreover have "habits st' = map ?f (habits st)"
      by (simp add: st')
    ultimately show ?thesis
      by (simp only: nm')
  qed
  show "select_habit hid uid st' = select_habit hid uid st"
    unfolding st' by (rule select_habit_map) simp
  show "k = length (select_habit hid uid st)" by (rule k)
qed

lemma trim_padded: "trim padded_name = js ''a''"
proof -
  have ws: "isWhiteSpace 32" "\<not> isWhiteSpace 97" by (simp_all add: isWhiteSpace_def)
  have "dropWhile isWhiteSpace (replicate 100 32 @ [97]) = dropWhile isWhiteSpace [97]"
    by (rule dropWhile_append2) (simp add: ws)
  then show ?thesis
    by (simp add: padded_name_def js_def trim_def trimStart_def ws)
qed

lemma trim_walk: "trim (js ''  Walk '') = js ''Walk''"
  by (simp add: js_def trim_defs)

lemma trim_blank: "trim (js ''   '') = []"
  by (simp add: js_def trim_defs)

lemma edit_sample: "edit sample_pg 1 1 (Some (js ''  Walk '')) (Some (js '''')) sample_db
    = (Redirect ''/'', edited_db)"
proof -
  have n: "js ''  Walk '' \<noteq> []" "\<not> 100 < length (js ''  Walk '')" "js ''Walk'' \<noteq> []"
    by (simp_all add: js_def)
  have u: "update_habit sample_pg (js ''Walk'') None 1 1 sample_db = Some (1, edited_db)"
    by (simp add: update_habit_def select_habit_def time_param_def edited_db_def sample_db_def
          water_habit_def read_habit_def sample_pg_def)
  have o: "or_null (Some (js '''')) = None" by (simp add: or_null_def js_def)
  show ?thesis
    using u by (simp add: edit_def trim_walk n o)
qed

subsection \<open>The constraints of the schema are kept\<close>

text \<open>
  The empty store meets the constraints, and every handler keeps them: they hold in every
  store the routes can reach.
\<close>

lemma wf_db_empty: "wf_db \<lparr>habits = [], habits_id_seq = 0, completions = []\<rparr>"
  by (simp add: wf_db_def)

lemma wf_db_insert_habit:
  assumes "wf_db st" and "insert_habit p uid now nm rt st = Some st'"
  shows "wf_db st'"
proof -
  from assms(2) obtain nm' t where
    st': "st' = st\<lparr>habits := habits st @
                          [\<lparr>h_id = Suc (habits_id_seq st), h_user_id = Some uid, h_name = nm',
                            h_created_at = now, h_reminder_time = t\<rparr>],
                        habits_id_seq := Suc (habits_id_seq st)\<rparr>"
    by (auto simp: insert_habit_def split: option.splits)
  from assms(1) have d: "distinct (map h_id (habits st))"
    and le: "\<forall>h \<in> set (habits st). h_id h \<le> habits_id_seq st"
    and dc: "distinct (completions st)"
    and fk: "\<forall>c \<in> set (completions st). c_habit_id c \<in> h_id ` set (habits st)"
    by (auto simp: wf_db_def list_all_iff)
  from le have fresh: "Suc (habits_id_seq st) \<notin> h_id ` set (habits st)" by fastforce
  show ?thesis
    using d le dc fk fresh by (auto simp: st' wf_db_def list_all_iff)
qed

lemma wf_db_add: "wf_db st \<Longrightarrow> wf_db (snd (add p uid now habitName reminderTime st))"
  by (auto simp: add_def split: option.splits dest: wf_db_insert_habit)

lemma wf_db_checkin: "wf_db st \<Longrightarrow> wf_db (snd (checkin uid hid today st))"
  by (auto simp: checkin_def insert_completion_def Let_def wf_db_def list_all_iff
           split: option.splits if_splits)

lemma wf_db_undo: "wf_db st \<Longrightarrow> wf_db (snd (undo uid hid today st))"
  by (auto simp: undo_def delete_completion_def wf_db_def list_all_iff)

lemma wf_db_edit: "wf_db st \<Longrightarrow> wf_db (snd (edit p uid hid habitName reminderTime st))"
proof -
  assume wf: "wf_db st"
  have m: "map h_id (map (\<lambda>h. if h_id h = hid \<and> h_user_id h = Some uid
             then h\<lparr>h_name := a, h_reminder_time := t\<rparr> else h) hs) = map h_id hs" for a t hs
    by (induction hs) auto
  have "wf_db st'" if "update_habit p nm rt hid uid st = Some (k, st')" for nm rt k st'
  proof -
    from that obtain nm' t where
      st': "st' = st\<lparr>habits := map (\<lambda>h. if h_id h = hid \<and> h_user_id h = Some uid
                      then h\<lparr>h_name := nm', h_reminder_time := t\<rparr> else h) (habits st)\<rparr>"
      by (auto simp: update_habit_def split: option.splits)
    have ids: "map h_id (habits st') = map h_id (habits st)" by (simp add: st' m)
    have le: "list_all (\<lambda>h. h_id h \<le> habits_id_seq st') (habits st')"
      using wf by (auto simp: st' wf_db_def list_all_iff)
    have c: "completions st' = completions st" by (simp add: st')
    show ?thesis
      unfolding wf_db_def ids c using wf le by (simp add: wf_db_def)
  qed
  then show ?thesis
    using wf by (auto simp: edit_def split: option.splits)
qed

lemma wf_db_delete: "wf_db st \<Longrightarrow> wf_db (snd (delete uid hid st))"
proof -
  assume wf: "wf_db st"
  let ?P = "\<lambda>h. \<not> (h_id h = hid \<and> h_user_id h = Some uid)"
  let ?gone = "select_habit hid uid st"
  let ?st' = "st\<lparr>habits := filter ?P (habits st),
                 completions := filter (\<lambda>c. c_habit_id c \<notin> set ?gone) (completions st)\<rparr>"
  from wf have d: "distinct (map h_id (habits st))"
    and le: "\<forall>h \<in> set (habits st). h_id h \<le> habits_id_seq st"
    and dc: "distinct (completions st)"
    and fk: "\<forall>c \<in> set (completions st). c_habit_id c \<in> h_id ` set (habits st)"
    by (auto simp: wf_db_def list_all_iff)
  have g: "set ?gone = h_id ` {h \<in> set (habits st). \<not> ?P h}"
    by (auto simp: select_habit_def)
  have "c_habit_id c \<in> h_id ` set (filter ?P (habits st))"
    if "c \<in> set (completions st)" "c_habit_id c \<notin> set ?gone" for c
  proof -
    from fk that(1) obtain h where h: "h \<in> set (habits st)" "h_id h = c_habit_id c" by force
    with that(2) g have "?P h" by force
    with h show ?thesis by force
  qed
  then have "wf_db ?st'"
    using d le dc by (auto simp: wf_db_def list_all_iff distinct_map_filter)
  moreover have "snd (delete uid hid st) = ?st'"
    by (simp add: delete_def delete_habit_def Let_def)
  ultimately show ?thesis by simp
qed

subsection \<open>Ownership\<close>

text \<open>
  C2, as the code has it. A habit of user \<open>A\<close> and a request of another user \<open>B\<close>:
  check-in, undo and delete answer 403 and leave the store as it was. Edit validates the
  name before it looks at the owner, so it answers 400 for a name that fails validation,
  500 when the store refuses a value, and 403 otherwise; the store is as it was in every case.
\<close>

theorem ownership_guard:
  assumes "wf_db st" and "h \<in> set (habits st)" and "h_user_id h = Some A" and "B \<noteq> A"
  shows "checkin B (h_id h) today st = (Send 403 ''Unauthorized'', st)
       \<and> undo B (h_id h) today st = (Send 403 ''Unauthorized'', st)
       \<and> delete B (h_id h) st = (Send 403 ''Unauthorized'', st)
       \<and> edit p B (h_id h) habitName reminderTime st =
           (case habitName of
              None \<Rightarrow> Send 400 ''Habit name is required''
            | Some n \<Rightarrow>
                if trim n = [] then Send 400 ''Habit name is required''
                else if length n > 100 then Send 400 ''Habit name too long (max 100 characters)''
                else if text_in p (trim n) = None \<or> time_param p (or_null reminderTime) = None
                  then Send 500 ''Edit Error: ''
                else Send 403 ''Unauthorized'',
            st)"
proof -
  have none: "select_habit (h_id h) B st = []"
    using assms by (rule select_habit_other)
  have c: "checkin B (h_id h) today st = (Send 403 ''Unauthorized'', st)"
    by (simp add: checkin_def none)
  have u: "undo B (h_id h) today st = (Send 403 ''Unauthorized'', st)"
    by (simp add: undo_def none)
  have d: "delete B (h_id h) st = (Send 403 ''Unauthorized'', st)"
    by (simp add: delete_def delete_habit_none [OF none])
  have upd: "update_habit p nm rt (h_id h) B st =
      (if text_in p nm = None \<or> time_param p rt = None then None else Some (0, st))" for nm rt
  proof (cases "update_habit p nm rt (h_id h) B st")
    case None
    then show ?thesis by (auto simp: update_habit_def split: option.splits)
  next
    case (Some r)
    obtain k st' where r: "r = (k, st')" by (cases r)
    from update_habit_none [OF none Some [unfolded r]] Some r
    show ?thesis by (auto simp: update_habit_def split: option.splits)
  qed
  have e: "edit p B (h_id h) habitName reminderTime st =
           (case habitName of
              None \<Rightarrow> Send 400 ''Habit name is required''
            | Some n \<Rightarrow>
                if trim n = [] then Send 400 ''Habit name is required''
                else if length n > 100 then Send 400 ''Habit name too long (max 100 characters)''
                else if text_in p (trim n) = None \<or> time_param p (or_null reminderTime) = None
                  then Send 500 ''Edit Error: ''
                else Send 403 ''Unauthorized'',
            st)"
  proof (cases habitName)
    case None
    then show ?thesis by (simp add: edit_def)
  next
    case (Some n)
    have "n = [] \<Longrightarrow> trim n = []" by (simp add: trim_def trimStart_def)
    then show ?thesis using Some by (auto simp: edit_def upd)
  qed
  from c u d e show ?thesis by blast
qed

theorem ownership_guard_witness:
  "wf_db sample_db \<and> water_habit \<in> set (habits sample_db) \<and> h_user_id water_habit = Some 1
   \<and> (2::nat) \<noteq> 1
   \<and> checkin 2 (h_id water_habit) 19801 sample_db = (Send 403 ''Unauthorized'', sample_db)
   \<and> undo 2 (h_id water_habit) 19800 sample_db = (Send 403 ''Unauthorized'', sample_db)
   \<and> delete 2 (h_id water_habit) sample_db = (Send 403 ''Unauthorized'', sample_db)
   \<and> edit sample_pg 2 (h_id water_habit) (Some (js ''Run'')) None sample_db
       = (Send 403 ''Unauthorized'', sample_db)"
proof -
  have h1: "wf_db sample_db" by (rule wf_sample)
  have h2: "water_habit \<in> set (habits sample_db)" by (simp add: sample_db_def)
  have h3: "h_user_id water_habit = Some 1" by (simp add: water_habit_def)
  have h4: "(2::nat) \<noteq> 1" by simp
  have v: "trim (js ''Run'') = js ''Run''" by (simp add: js_def trim_defs)
  have p: "text_in sample_pg (js ''Run'') \<noteq> None" "time_param sample_pg (or_null None) \<noteq> None"
    by (simp_all add: sample_pg_def time_param_def or_null_def)
  have l: "\<not> 100 < length (js ''Run'')" "js ''Run'' \<noteq> []" by (simp_all add: js_def)
  from ownership_guard [OF h1 h2 h3 h4, of 19801 sample_pg "Some (js ''Run'')" None]
    ownership_guard [OF h1 h2 h3 h4, of 19800 sample_pg "Some (js ''Run'')" None]
  show ?thesis using h1 h2 h3 v p l by simp
qed

text \<open>
  C2 as stated fails for edit: with an empty name the answer to the other user is the
  validation failure 400, not the authorization failure 403.
\<close>

theorem ownership_guard_edit_counterexample:
  "wf_db sample_db \<and> water_habit \<in> set (habits sample_db) \<and> h_user_id water_habit = Some 1
   \<and> (2::nat) \<noteq> 1
   \<and> edit sample_pg 2 (h_id water_habit) (Some (js '''')) None sample_db
       = (Send 400 ''Habit name is required'', sample_db)
   \<and> Send 400 ''Habit name is required'' \<noteq> Send 403 ''Unauthorized''"
  by (simp add: wf_sample edit_def js_def) (simp add: sample_defs)

subsection \<open>Check-in and undo\<close>

text \<open>
  C3. For the owner of a habit, under the constraints of the schema: a first check-in
  for a date succeeds; a second one succeeds too and leaves the store as the first left it,
  with exactly one completion row for the habit and date; an undo then succeeds and leaves
  the store that has no completion for the pair and is otherwise the one before the check-ins.
\<close>

theorem checkin_idempotent_undo:
  assumes "wf_db st" and "select_habit hid uid st \<noteq> []"
  shows "\<exists>s1. checkin uid hid d st = (Redirect ''/'', s1)
            \<and> checkin uid hid d s1 = (Redirect ''/'', s1)
            \<and> length (filter (\<lambda>c. c = \<lparr>c_habit_id = hid, c_completed_date = d\<rparr>) (completions s1)) = 1
            \<and> habits s1 = habits st
            \<and> undo uid hid d s1 =
                (Redirect ''/'',
                 st\<lparr>completions :=
                      filter (\<lambda>c. c \<noteq> \<lparr>c_habit_id = hid, c_completed_date = d\<rparr>) (completions st)\<rparr>)"
proof -
  let ?row = "\<lparr>c_habit_id = hid, c_completed_date = d\<rparr>"
  let ?s1 = "if ?row \<in> set (completions st) then st else st\<lparr>completions := completions st @ [?row]\<rparr>"
  have own: "length (select_habit hid uid st) \<noteq> 0" using assms(2) by simp
  have dist: "distinct (completions st)" using assms(1) by (simp add: wf_db_def)
  have first: "checkin uid hid d st = (Redirect ''/'', ?s1)"
    using own select_habit_id [OF assms(2)]
    by (simp add: checkin_def insert_completion_def Let_def del: set_map)
  have mem: "?row \<in> set (completions ?s1)" by simp
  have own1: "length (select_habit hid uid ?s1) \<noteq> 0" using own by simp
  have second: "checkin uid hid d ?s1 = (Redirect ''/'', ?s1)"
    using own1 insert_completion_old [OF mem] by (simp add: checkin_def)
  have "distinct (completions ?s1)" using dist by simp
  then have one: "length (filter (\<lambda>c. c = ?row) (completions ?s1)) = 1"
    using mem by (rule count_row_distinct)
  have hs: "habits ?s1 = habits st" by simp
  have "delete_completion hid d ?s1 = st\<lparr>completions := filter (\<lambda>c. c \<noteq> ?row) (completions st)\<rparr>"
    by (simp add: delete_completion_def completion_neq_iff)
  then have third: "undo uid hid d ?s1 =
      (Redirect ''/'', st\<lparr>completions := filter (\<lambda>c. c \<noteq> ?row) (completions st)\<rparr>)"
    using own1 by (simp add: undo_def)
  from first second one hs third show ?thesis by blast
qed

theorem checkin_idempotent_undo_witness:
  "wf_db sample_db \<and> select_habit 1 1 sample_db \<noteq> []
   \<and> checkin 1 1 19801 sample_db
        = (Redirect ''/'',
           sample_db\<lparr>completions := completions sample_db @ [\<lparr>c_habit_id = 1, c_completed_date = 19801\<rparr>]\<rparr>)
   \<and> (\<exists>s1. checkin 1 1 19801 sample_db = (Redirect ''/'', s1)
            \<and> checkin 1 1 19801 s1 = (Redirect ''/'', s1)
            \<and> length (filter (\<lambda>c. c = \<lparr>c_habit_id = 1, c_completed_date = 19801\<rparr>) (completions s1)) = 1
            \<and> habits s1 = habits sample_db
            \<and> undo 1 1 19801 s1 =
                (Redirect ''/'',
                 sample_db\<lparr>completions :=
                      filter (\<lambda>c. c \<noteq> \<lparr>c_habit_id = 1, c_completed_date = 19801\<rparr>) (completions sample_db)\<rparr>))"
proof -
  have h1: "wf_db sample_db" by (rule wf_sample)
  have h2: "select_habit 1 1 sample_db \<noteq> []" by (simp add: select_habit_def sample_defs)
  have c: "checkin 1 1 19801 sample_db
        = (Redirect ''/'',
           sample_db\<lparr>completions := completions sample_db @ [\<lparr>c_habit_id = 1, c_completed_date = 19801\<rparr>]\<rparr>)"
    by (simp add: checkin_def select_habit_def insert_completion_def sample_defs)
  from h1 h2 c checkin_idempotent_undo [OF h1 h2, of 19801] show ?thesis by blast
qed

subsection \<open>Validation of the habit name\<close>

text \<open>
  C8, as the code has it, for add and edit alike. A missing name, or one that is empty
  after trimming, is answered 400 (name required). Otherwise a name of more than 100 code units
  \<^emph>\<open>before\<close> trimming is answered 400 (name too long); this covers every name whose
  trimmed length exceeds 100. Otherwise the name passes validation: when the store takes the
  values, add appends a habit that carries the trimmed name, and edit of an own habit gives
  it the trimmed name. The store is untouched by a rejected request.
\<close>

theorem name_validation:
  "add p uid now None rt st = (Send 400 ''Habit name is required'', st)
   \<and> edit p uid hid None rt st = (Send 400 ''Habit name is required'', st)
   \<and> (trim n = [] \<longrightarrow>
        add p uid now (Some n) rt st = (Send 400 ''Habit name is required'', st)
        \<and> edit p uid hid (Some n) rt st = (Send 400 ''Habit name is required'', st))
   \<and> (trim n \<noteq> [] \<and> 100 < length n \<longrightarrow>
        add p uid now (Some n) rt st = (Send 400 ''Habit name too long (max 100 characters)'', st)
        \<and> edit p uid hid (Some n) rt st = (Send 400 ''Habit name too long (max 100 characters)'', st))
   \<and> (100 < length (trim n) \<longrightarrow>
        add p uid now (Some n) rt st = (Send 400 ''Habit name too long (max 100 characters)'', st)
        \<and> edit p uid hid (Some n) rt st = (Send 400 ''Habit name too long (max 100 characters)'', st))
   \<and> (trim n \<noteq> [] \<and> length n \<le> 100 \<and> text_in p (trim n) = Some nm
        \<and> time_param p (or_null rt) = Some t \<longrightarrow>
        add p uid now (Some n) rt st =
          (Redirect ''/'',
           st\<lparr>habits := habits st @
                  [\<lparr>h_id = Suc (habits_id_seq st), h_user_id = Some uid, h_name = nm,
                    h_created_at = now, h_reminder_time = t\<rparr>],
              habits_id_seq := Suc (habits_id_seq st)\<rparr>)
        \<and> (select_habit hid uid st \<noteq> [] \<longrightarrow>
             (\<exists>st'. edit p uid hid (Some n) rt st = (Redirect ''/'', st')
                \<and> select_habit hid uid st' \<noteq> []
                \<and> list_all (\<lambda>h. h_id h = hid \<and> h_user_id h = Some uid \<longrightarrow> h_name h = nm)
                     (habits st'))))"
proof -
  have a0: "add p uid now None rt st = (Send 400 ''Habit name is required'', st)"
    by (simp add: add_def)
  have e0: "edit p uid hid None rt st = (Send 400 ''Habit name is required'', st)"
    by (simp add: edit_def)
  have empty: "add p uid now (Some n) rt st = (Send 400 ''Habit name is required'', st)
        \<and> edit p uid hid (Some n) rt st = (Send 400 ''Habit name is required'', st)"
    if "trim n = []"
    using that by (simp add: add_def edit_def)
  have ne: "n \<noteq> []" if "trim n \<noteq> []" using that by auto
  have long: "add p uid now (Some n) rt st = (Send 400 ''Habit name too long (max 100 characters)'', st)
        \<and> edit p uid hid (Some n) rt st = (Send 400 ''Habit name too long (max 100 characters)'', st)"
    if "trim n \<noteq> []" "100 < length n"
    using that ne by (simp add: add_def edit_def)
  have long': "add p uid now (Some n) rt st = (Send 400 ''Habit name too long (max 100 characters)'', st)
        \<and> edit p uid hid (Some n) rt st = (Send 400 ''Habit name too long (max 100 characters)'', st)"
    if "100 < length (trim n)"
  proof -
    have "trim n \<noteq> []" using that by auto
    moreover have "100 < length n" using that length_trim_le [of n] by linarith
    ultimately show ?thesis by (rule long)
  qed
  have ok_add: "add p uid now (Some n) rt st =
          (Redirect ''/'',
           st\<lparr>habits := habits st @
                  [\<lparr>h_id = Suc (habits_id_seq st), h_user_id = Some uid, h_name = nm,
                    h_created_at = now, h_reminder_time = t\<rparr>],
              habits_id_seq := Suc (habits_id_seq st)\<rparr>)"
    if "trim n \<noteq> []" "length n \<le> 100" "text_in p (trim n) = Some nm"
       "time_param p (or_null rt) = Some t"
    using that ne by (simp add: add_def insert_habit_def)
  have ok_edit: "\<exists>st'. edit p uid hid (Some n) rt st = (Redirect ''/'', st')
                \<and> select_habit hid uid st' \<noteq> []
                \<and> list_all (\<lambda>h. h_id h = hid \<and> h_user_id h = Some uid \<longrightarrow> h_name h = nm)
                     (habits st')"
    if v: "trim n \<noteq> []" "length n \<le> 100" and c: "text_in p (trim n) = Some nm"
       "time_param p (or_null rt) = Some t" and own: "select_habit hid uid st \<noteq> []"
  proof -
    obtain k st' where u: "update_habit p (trim n) (or_null rt) hid uid st = Some (k, st')"
      using c by (simp add: update_habit_def)
    from update_habit_names [OF u] c own
    have "k \<noteq> 0" "select_habit hid uid st' \<noteq> []"
      "list_all (\<lambda>h. h_id h = hid \<and> h_user_id h = Some uid \<longrightarrow> h_name h = nm) (habits st')"
      by (auto simp: list_all_iff)
    moreover have "edit p uid hid (Some n) rt st = (Redirect ''/'', st')"
      using v ne u \<open>k \<noteq> 0\<close> by (simp add: edit_def)
    ultimately show ?thesis by blast
  qed
  from a0 e0 empty long long' ok_add ok_edit show ?thesis by blast
qed

theorem name_validation_witness:
  "trim (js ''   '') = []
   \<and> add sample_pg 1 3000 (Some (js ''   '')) None sample_db
        = (Send 400 ''Habit name is required'', sample_db)
   \<and> edit sample_pg 1 1 (Some (js ''   '')) None sample_db
        = (Send 400 ''Habit name is required'', sample_db)
   \<and> trim padded_name \<noteq> [] \<and> 100 < length padded_name
   \<and> add sample_pg 1 3000 (Some padded_name) None sample_db
        = (Send 400 ''Habit name too long (max 100 characters)'', sample_db)
   \<and> 100 < length (trim (replicate 101 97))
   \<and> edit sample_pg 1 1 (Some (replicate 101 97)) None sample_db
        = (Send 400 ''Habit name too long (max 100 characters)'', sample_db)
   \<and> trim (js ''  Walk '') \<noteq> [] \<and> length (js ''  Walk '') \<le> 100
   \<and> text_in sample_pg (trim (js ''  Walk '')) = Some (js ''Walk'')
   \<and> time_param sample_pg (or_null (Some (js ''07:30''))) = Some (Some 27000)
   \<and> add sample_pg 1 3000 (Some (js ''  Walk '')) (Some (js ''07:30'')) sample_db
        = (Redirect ''/'',
           sample_db\<lparr>habits := habits sample_db @
                  [\<lparr>h_id = 3, h_user_id = Some 1, h_name = js ''Walk'',
                    h_created_at = 3000, h_reminder_time = Some 27000\<rparr>],
              habits_id_seq := 3\<rparr>)
   \<and> select_habit 1 1 sample_db \<noteq> []
   \<and> (\<exists>st'. edit sample_pg 1 1 (Some (js ''  Walk '')) (Some (js ''07:30'')) sample_db
                = (Redirect ''/'', st')
            \<and> select_habit 1 1 st' \<noteq> []
            \<and> list_all (\<lambda>h. h_id h = 1 \<and> h_user_id h = Some 1 \<longrightarrow> h_name h = js ''Walk'')
                 (habits st'))"
proof -
  have b: "trim (js ''   '') = []" by (rule trim_blank)
  have l: "trim padded_name \<noteq> [] \<and> 100 < length padded_name"
    by (simp add: trim_padded) (simp add: padded_name_def js_def)
  have "\<not> isWhiteSpace 97" by (simp add: isWhiteSpace_def)
  then have "trim (replicate 101 97) = replicate 101 97"
    by (simp add: trim_def trimStart_def dropWhile_replicate)
  then have l': "100 < length (trim (replicate 101 97))" by simp
  have t: "time_param sample_pg (or_null (Some (js ''07:30''))) = Some (Some 27000)"
    by (simp add: time_param_def or_null_def sample_pg_def hhmm_def js_def)
  have v: "trim (js ''  Walk '') \<noteq> [] \<and> length (js ''  Walk '') \<le> 100
      \<and> text_in sample_pg (trim (js ''  Walk '')) = Some (js ''Walk'')
      \<and> time_param sample_pg (or_null (Some (js ''07:30''))) = Some (Some 27000)"
    using t by (simp add: trim_walk sample_pg_def) (simp add: js_def)
  have own: "select_habit 1 1 sample_db \<noteq> []" by (simp add: select_habit_def sample_defs)
  have seq: "habits_id_seq sample_db = 2" by (simp add: sample_db_def)
  from name_validation [of sample_pg 1 3000 None sample_db 1 "js ''   ''"] b
  have r1: "add sample_pg 1 3000 (Some (js ''   '')) None sample_db
        = (Send 400 ''Habit name is required'', sample_db)
   \<and> edit sample_pg 1 1 (Some (js ''   '')) None sample_db
        = (Send 400 ''Habit name is required'', sample_db)"
    by blast
  from name_validation [of sample_pg 1 3000 None sample_db 1 padded_name] l
  have r2: "add sample_pg 1 3000 (Some padded_name) None sample_db
        = (Send 400 ''Habit name too long (max 100 characters)'', sample_db)"
    by blast
  from name_validation [of sample_pg 1 3000 None sample_db 1 "replicate 101 97"] l'
  have r3: "edit sample_pg 1 1 (Some (replicate 101 97)) None sample_db
        = (Send 400 ''Habit name too long (max 100 characters)'', sample_db)"
    by blast
  from name_validation [of sample_pg 1 3000 "Some (js ''07:30'')" sample_db 1 "js ''  Walk ''"
       "js ''Walk''" "Some 27000"] v own
  have r4: "add sample_pg 1 3000 (Some (js ''  Walk '')) (Some (js ''07:30'')) sample_db
        = (Redirect ''/'',
           sample_db\<lparr>habits := habits sample_db @
                  [\<lparr>h_id = Suc (habits_id_seq sample_db), h_user_id = Some 1, h_name = js ''Walk'',
                    h_created_at = 3000, h_reminder_time = Some 27000\<rparr>],
              habits_id_seq := Suc (habits_id_seq sample_db)\<rparr>)"
   and r5: "\<exists>st'. edit sample_pg 1 1 (Some (js ''  Walk '')) (Some (js ''07:30'')) sample_db
                = (Redirect ''/'', st')
            \<and> select_habit 1 1 st' \<noteq> []
            \<and> list_all (\<lambda>h. h_id h = 1 \<and> h_user_id h = Some 1 \<longrightarrow> h_name h = js ''Walk'')
                 (habits st')"
    by blast+
  have r4': "add sample_pg 1 3000 (Some (js ''  Walk '')) (Some (js ''07:30'')) sample_db
        = (Redirect ''/'',
           sample_db\<lparr>habits := habits sample_db @
                  [\<lparr>h_id = 3, h_user_id = Some 1, h_name = js ''Walk'',
                    h_created_at = 3000, h_reminder_time = Some 27000\<rparr>],
              habits_id_seq := 3\<rparr>)"
    using r4 by (simp add: seq)
  from b r1 l r2 l' r3 v r4' own r5 show ?thesis by blast
qed

text \<open>
  C8 as stated fails: the name \<open>a\<close> followed by 100 spaces has trimmed length 1, and
  both add and edit refuse it as too long, since the limit is checked on the untrimmed name.
\<close>

theorem name_validation_counterexample:
  "length (trim padded_name) = 1
   \<and> add sample_pg 1 3000 (Some padded_name) None sample_db
        = (Send 400 ''Habit name too long (max 100 characters)'', sample_db)
   \<and> edit sample_pg 1 1 (Some padded_name) None sample_db
        = (Send 400 ''Habit name too long (max 100 characters)'', sample_db)"
proof -
  have "length padded_name = 101" by (simp add: padded_name_def js_def)
  moreover have "padded_name \<noteq> []" by (simp add: padded_name_def js_def)
  ultimately show ?thesis
    by (simp add: trim_padded add_def edit_def) (simp add: js_def)
qed

subsection \<open>What an edit changes\<close>

text \<open>
  C10. An edit that succeeds leaves the completions, the sequence and the number and
  order of the habits alone; it hit at least one habit; of every habit it keeps id, owner
  and creation time; a habit that is not the target is unchanged; the target gets the
  trimmed name and the reminder time of the request, which is null when the request has no
  reminder time or an empty one, whatever was stored before.
\<close>

theorem edit_overwrites_reminder:
  assumes "edit p uid hid habitName reminderTime st = (Redirect ''/'', st')"
  shows "completions st' = completions st \<and> habits_id_seq st' = habits_id_seq st
       \<and> length (habits st') = length (habits st)
       \<and> select_habit hid uid st \<noteq> []
       \<and> (\<forall>i < length (habits st).
            h_id (habits st' ! i) = h_id (habits st ! i)
            \<and> h_user_id (habits st' ! i) = h_user_id (habits st ! i)
            \<and> h_created_at (habits st' ! i) = h_created_at (habits st ! i)
            \<and> (if h_id (habits st ! i) = hid \<and> h_user_id (habits st ! i) = Some uid
               then (\<exists>n. habitName = Some n \<and> text_in p (trim n) = Some (h_name (habits st' ! i)))
                    \<and> time_param p (or_null reminderTime) = Some (h_reminder_time (habits st' ! i))
                    \<and> (reminderTime = None \<or> reminderTime = Some [] \<longrightarrow>
                          h_reminder_time (habits st' ! i) = None)
               else habits st' ! i = habits st ! i))"
proof -
  from assms obtain n where n: "habitName = Some n"
    by (cases habitName) (auto simp: edit_def)
  from assms n obtain k where u: "update_habit p (trim n) (or_null reminderTime) hid uid st = Some (k, st')"
    and k: "k \<noteq> 0"
    by (auto simp: edit_def split: if_splits option.splits)
  from u obtain nm t where nm: "text_in p (trim n) = Some nm"
    and t: "time_param p (or_null reminderTime) = Some t"
    and st': "st' = st\<lparr>habits := map (\<lambda>h. if h_id h = hid \<and> h_user_id h = Some uid
                                 then h\<lparr>h_name := nm, h_reminder_time := t\<rparr> else h) (habits st)\<rparr>"
    and kk: "k = length (select_habit hid uid st)"
    by (auto simp: update_habit_def split: option.splits)
  have null: "t = None" if "reminderTime = None \<or> reminderTime = Some []"
    using that t by (auto simp: or_null_def time_param_def)
  show ?thesis
    using n nm t k kk null by (simp add: st')
qed

theorem edit_overwrites_reminder_witness:
  "edit sample_pg 1 1 (Some (js ''  Walk '')) (Some (js '''')) sample_db = (Redirect ''/'', edited_db)
   \<and> h_reminder_time (habits sample_db ! 0) = Some 28800
   \<and> h_reminder_time (habits edited_db ! 0) = None
   \<and> h_name (habits edited_db ! 0) = js ''Walk''
   \<and> h_created_at (habits edited_db ! 0) = h_created_at (habits sample_db ! 0)
   \<and> habits edited_db ! 1 = habits sample_db ! 1
   \<and> completions edited_db = completions sample_db"
proof -
  have e: "edit sample_pg 1 1 (Some (js ''  Walk '')) (Some (js '''')) sample_db
    = (Redirect ''/'', edited_db)" by (rule edit_sample)
  have len: "(0::nat) < length (habits sample_db)" "(1::nat) < length (habits sample_db)"
    by (simp_all add: sample_db_def)
  have who: "h_id (habits sample_db ! 0) = 1 \<and> h_user_id (habits sample_db ! 0) = Some 1"
    "\<not> (h_id (habits sample_db ! 1) = 1 \<and> h_user_id (habits sample_db ! 1) = Some 1)"
    by (simp_all add: sample_defs)
  have old: "h_reminder_time (habits sample_db ! 0) = Some 28800" by (simp add: sample_defs)
  have nm: "h_name (habits edited_db ! 0) = js ''Walk''" by (simp add: edited_db_def)
  from edit_overwrites_reminder [OF e]
  have c: "completions edited_db = completions sample_db"
    and a: "\<forall>i < length (habits sample_db).
            h_id (habits edited_db ! i) = h_id (habits sample_db ! i)
            \<and> h_user_id (habits edited_db ! i) = h_user_id (habits sample_db ! i)
            \<and> h_created_at (habits edited_db ! i) = h_created_at (habits sample_db ! i)
            \<and> (if h_id (habits sample_db ! i) = 1 \<and> h_user_id (habits sample_db ! i) = Some 1
               then (\<exists>n. Some (js ''  Walk '') = Some n \<and> text_in sample_pg (trim n) = Some (h_name (habits edited_db ! i)))
                    \<and> time_param sample_pg (or_null (Some (js ''''))) = Some (h_reminder_time (habits edited_db ! i))
                    \<and> (Some (js '''') = None \<or> Some (js '''') = Some [] \<longrightarrow>
                          h_reminder_time (habits edited_db ! i) = None)
               else habits edited_db ! i = habits sample_db ! i)"
    by blast+
  from a [rule_format, OF len(1)] who(1)
  have z0: "h_reminder_time (habits edited_db ! 0) = None"
    "h_created_at (habits edited_db ! 0) = h_created_at (habits sample_db ! 0)"
    by (simp_all add: js_def)
  from a [rule_format, OF len(2)] who(2)
  have z1: "habits edited_db ! 1 = habits sample_db ! 1"
    by auto
  from e old z0 nm z1 c show ?thesis by blast
qed

section \<open>Properties of the streak\<close>

lemma streak_walk_bounds:
  "streak \<le> streak_walk today rows i streak
   \<and> streak_walk today rows i streak \<le> streak + int (length rows - i)"
proof (induction today rows i streak rule: streak_walk.induct)
  case (1 today rows i streak)
  show ?case
  proof (cases "i < length rows \<and> rows ! i = today - int i")
    case True
    then have "streak_walk today rows i streak = streak_walk today rows (i + 1) (streak + 1)"
      by (subst streak_walk.simps) simp
    moreover from True "1.IH"
    have "streak + 1 \<le> streak_walk today rows (i + 1) (streak + 1)
        \<and> streak_walk today rows (i + 1) (streak + 1) \<le> streak + 1 + int (length rows - (i + 1))"
      by simp
    ultimately show ?thesis using True by auto
  next
    case False
    then have "streak_walk today rows i streak = streak"
      by (subst streak_walk.simps) auto
    then show ?thesis by simp
  qed
qed

lemma streak_walk_miss:
  assumes "today \<notin> set rows"
  shows "streak_walk today rows 0 0 = 0"
proof (cases rows)
  case Nil
  then show ?thesis by (subst streak_walk.simps) simp
next
  case (Cons d ds)
  with assms have "rows ! 0 \<noteq> today - int 0" by auto
  then show ?thesis by (subst streak_walk.simps) simp
qed

lemma set_select_completed_desc:
  "set (select_completed_desc hid st) = c_completed_date ` {c \<in> set (completions st). c_habit_id c = hid}"
  by (simp add: select_completed_desc_def)

lemma length_select_completed_desc:
  "length (select_completed_desc hid st) = length (filter (\<lambda>c. c_habit_id c = hid) (completions st))"
  by (simp add: select_completed_desc_def)

lemma select_completed_desc_mset:
  assumes "mset (completions st') = mset (completions st)"
  shows "select_completed_desc hid st' = select_completed_desc hid st"
proof -
  let ?ds = "\<lambda>s. map c_completed_date (filter (\<lambda>c. c_habit_id c = hid) (completions s))"
  have "mset (?ds st') = mset (?ds st)"
    using assms by simp
  then have "mset (sort (?ds st)) = mset (?ds st')" by simp
  then have "sort (?ds st') = sort (?ds st)"
    by (rule properties_for_sort) simp
  then show ?thesis by (simp add: select_completed_desc_def)
qed


lemma set_insort_cmp: "set (insort_cmp cmp x xs) = insert x (set xs)"
  by (induction xs) auto

lemma set_js_sort: "set (js_sort cmp xs) = set xs"
  by (induction xs) (simp_all add: js_sort_def set_insort_cmp)

lemma length_insort_cmp: "length (insort_cmp cmp x xs) = Suc (length xs)"
  by (induction xs) auto

lemma length_js_sort: "length (js_sort cmp xs) = length xs"
  by (induction xs) (simp_all add: js_sort_def length_insort_cmp)

lemma mset_insort_cmp: "mset (insort_cmp cmp x xs) = add_mset x (mset xs)"
  by (induction xs) auto

lemma mset_js_sort: "mset (js_sort cmp xs) = mset xs"
  by (induction xs) (simp_all add: js_sort_def mset_insort_cmp)

lemma set_sort_habits: "set (sort_habits lc sortBy hs) = set hs"
  by (simp add: sort_habits_def set_js_sort)

lemma mset_sort_habits: "mset (sort_habits lc sortBy hs) = mset hs"
  by (simp add: sort_habits_def mset_js_sort)

lemma local_day_local_midnight: "local_day zone (local_midnight zone d) = d"
  by (simp add: local_day_def local_midnight_def)

lemma local_midnight_eq:
  "local_midnight zone a = setDate_back i (local_midnight zone b) \<longleftrightarrow> a = b - i"
  unfolding local_midnight_def setDate_back_def by arith

lemma todayDate_east:
  assumes "0 \<le> zone" and "zone < 1440"
  shows "todayDate zone today = today"
proof -
  have "(today * 1440 + zone) div 1440 = today + zone div 1440" by simp
  with assms show ?thesis by (simp add: todayDate_def local_day_def utc_midnight_def)
qed

lemma todayDate_west:
  assumes "- 1440 \<le> zone" and "zone < 0"
  shows "todayDate zone today = today - 1"
proof -
  have "(today * 1440 + zone) div 1440 = today + zone div 1440" by simp
  moreover from assms have "zone div 1440 = - 1"
    by (simp add: div_pos_neg_trivial)
  ultimately show ?thesis by (simp add: todayDate_def local_day_def utc_midnight_def)
qed

lemma home_views:
  assumes "h \<in> set (fst (home lc zone userId today sortParam st))"
  shows "v_streak h = streak_walk (todayDate zone today) (v_completions h) 0 0"
proof -
  from assms obtain v where "h = enrich zone today v"
    by (auto simp: home_def Let_def set_sort_habits)
  then show ?thesis by (simp add: enrich_def)
qed

lemmas zone_defs = todayDate_def local_day_def utc_midnight_def local_midnight_def setDate_back_def

lemmas home_defs = home_def habit_completions_def left_join_def join_row_def habitsMap_def
      group_step_def new_view_def add_row_def enrich_def sort_habits_def js_sort_def
      or_null_def Let_def

text \<open>
  A list of completion dates that does not hold today's date has streak 0 in the loop itself
  and in \<^verbatim>\<open>calculateStreak\<close>, in every zone. On the home page it has streak 0 when the
  server is in UTC or east of it, where \<open>todayDate\<close> is today.
\<close>

lemma calculateStreak_miss:
  assumes "today \<notin> set (select_completed_desc habitId st)"
  shows "calculateStreak st today habitId = 0"
proof -
  from assms have "streak_walk today (select_completed_desc habitId st) 0 0 = 0"
    by (rule streak_walk_miss)
  then show ?thesis by (simp add: calculateStreak_def Let_def)
qed

lemma home_streak_miss:
  assumes "0 \<le> zone" and "zone < 1440"
    and "h \<in> set (fst (home lc zone userId today sortParam st))"
    and "today \<notin> set (v_completions h)"
  shows "v_streak h = 0"
  using assms by (simp add: home_views todayDate_east streak_walk_miss)

text \<open>
  C4 against the code. On a server west of UTC, \<^verbatim>\<open>new Date(today)\<close> (UTC midnight) is an
  instant of the evening before in local time, so \<^verbatim>\<open>setHours(0, 0, 0, 0)\<close> makes
  \<^verbatim>\<open>todayDate\<close> yesterday's midnight and the loop of the page walks from yesterday. Five
  hours west of UTC, for a habit completed yesterday and the day before and not today, the
  page shows streak 2, where the claim (and \<^verbatim>\<open>calculateStreak\<close> on the same store and
  day) gives 0.
\<close>

theorem home_streak_west_of_utc:
  "fst (home unit_compare (- 300) 1 19801 None sample_db) =
     [\<lparr>v_id = 1, v_name = js ''Drink water'', v_created_at = 1000, v_reminderTime = Some 28800,
       v_checkedInToday = False, v_streak = 2, v_completions = [19800, 19799],
       v_totalCompletions = 2\<rparr>]
   \<and> (19801 :: int) \<notin> set [19800, 19799]
   \<and> todayDate (- 300) 19801 = 19800
   \<and> calculateStreak sample_db 19801 1 = 0"
proof -
  have t: "todayDate (- 300) 19801 = 19800" by (simp add: zone_defs)
  have w: "streak_walk 19800 [19800, 19799] 0 0 = 2" by (simp add: streak_walk.simps)
  have h: "fst (home unit_compare (- 300) 1 19801 None sample_db) =
     [\<lparr>v_id = 1, v_name = js ''Drink water'', v_created_at = 1000, v_reminderTime = Some 28800,
       v_checkedInToday = False, v_streak = streak_walk (todayDate (- 300) 19801) [19800, 19799] 0 0,
       v_completions = [19800, 19799], v_totalCompletions = 2\<rparr>]"
    by (simp add: home_defs sample_db_def water_habit_def read_habit_def js_def)
  have c: "calculateStreak sample_db 19801 1 = 0"
    by (simp add: calculateStreak_def select_completed_desc_def sample_db_def streak_walk.simps)
  from h t w c show ?thesis by simp
qed

text \<open>
  In the same zone a habit that was completed today and yesterday is shown with streak 0,
  where \<^verbatim>\<open>calculateStreak\<close> gives 2.
\<close>

lemma home_streak_west_today:
  "fst (home unit_compare (- 300) 1 19800 None sample_db) =
     [\<lparr>v_id = 1, v_name = js ''Drink water'', v_created_at = 1000, v_reminderTime = Some 28800,
       v_checkedInToday = True, v_streak = 0, v_completions = [19800, 19799],
       v_totalCompletions = 2\<rparr>]
   \<and> calculateStreak sample_db 19800 1 = 2"
proof -
  have t: "todayDate (- 300) 19800 = 19799" by (simp add: zone_defs)
  have w: "streak_walk 19799 [19800, 19799] 0 0 = 0" by (simp add: streak_walk.simps)
  have h: "fst (home unit_compare (- 300) 1 19800 None sample_db) =
     [\<lparr>v_id = 1, v_name = js ''Drink water'', v_created_at = 1000, v_reminderTime = Some 28800,
       v_checkedInToday = True, v_streak = streak_walk (todayDate (- 300) 19800) [19800, 19799] 0 0,
       v_completions = [19800, 19799], v_totalCompletions = 2\<rparr>]"
    by (simp add: home_defs sample_db_def water_habit_def read_habit_def js_def)
  have c: "calculateStreak sample_db 19800 1 = 2"
    by (simp add: calculateStreak_def select_completed_desc_def sample_db_def streak_walk.simps)
  from h t w c show ?thesis by simp
qed

text \<open>
  C5. The streak does not depend on the order in which the completions are held: the
  dates reach the walk through \<^verbatim>\<open>ORDER BY completed_date DESC\<close>, so two stores whose
  completion tables are permutations of each other give every habit the same streak.
\<close>

theorem streak_order_invariant:
  assumes "mset (completions st') = mset (completions st)"
  shows "calculateStreak st' today habitId = calculateStreak st today habitId"
  using select_completed_desc_mset [OF assms]
  by (simp add: calculateStreak_def)

theorem streak_order_invariant_witness:
  "mset (completions (sample_db\<lparr>completions := rev (completions sample_db)\<rparr>))
     = mset (completions sample_db)
   \<and> calculateStreak (sample_db\<lparr>completions := rev (completions sample_db)\<rparr>) 19800 1
       = calculateStreak sample_db 19800 1
   \<and> calculateStreak sample_db 19800 1 = 2"
proof -
  have m: "mset (completions (sample_db\<lparr>completions := rev (completions sample_db)\<rparr>))
     = mset (completions sample_db)" by simp
  have "calculateStreak sample_db 19800 1 = 2"
    by (simp add: calculateStreak_def select_completed_desc_def sample_db_def streak_walk.simps)
  with m streak_order_invariant [OF m, of 19800 1] show ?thesis by simp
qed

text \<open>
  C9. The streak is at least 0 and at most the number of completion dates, for the walk
  on any list and for \<^verbatim>\<open>calculateStreak\<close> on any store and day; with no completion
  date the streak is 0.
\<close>

theorem streak_bounds:
  "0 \<le> streak_walk today rows 0 0
   \<and> streak_walk today rows 0 0 \<le> int (length rows)
   \<and> streak_walk today [] 0 0 = 0
   \<and> 0 \<le> calculateStreak st today habitId
   \<and> calculateStreak st today habitId
        \<le> int (length (filter (\<lambda>c. c_habit_id c = habitId) (completions st)))
   \<and> calculateStreak (st\<lparr>completions := filter (\<lambda>c. c_habit_id c \<noteq> habitId) (completions st)\<rparr>)
        today habitId = 0"
proof -
  have w: "0 \<le> streak_walk today rs 0 0 \<and> streak_walk today rs 0 0 \<le> int (length rs)" for rs
    using streak_walk_bounds [of 0 today rs 0] by simp
  have e: "streak_walk today [] 0 0 = 0"
    by (subst streak_walk.simps) simp
  have c: "0 \<le> calculateStreak st today habitId
     \<and> calculateStreak st today habitId
        \<le> int (length (filter (\<lambda>c. c_habit_id c = habitId) (completions st)))"
    using w [of "select_completed_desc habitId st"]
    by (simp add: calculateStreak_def Let_def length_select_completed_desc)
  have "select_completed_desc habitId
          (st\<lparr>completions := filter (\<lambda>c. c_habit_id c \<noteq> habitId) (completions st)\<rparr>) = []"
    by (simp add: select_completed_desc_def)
  then have z: "calculateStreak (st\<lparr>completions := filter (\<lambda>c. c_habit_id c \<noteq> habitId) (completions st)\<rparr>)
        today habitId = 0"
    by (simp add: calculateStreak_def)
  from w [of rows] e c z show ?thesis by blast
qed

section \<open>The home page and the store\<close>

text \<open>
  The page is computed from the rows of one query; the lemmas below read it off the tables:
  one entry for each habit of the user, with the dates of \<^verbatim>\<open>ORDER BY completed_date DESC\<close>.
\<close>

lemma first_keys_snoc:
  "first_keys (ks @ [k]) = (if k \<in> set ks then first_keys ks else first_keys ks @ [k])"
  by (simp add: first_keys_def)

lemma set_first_keys [simp]: "set (first_keys ks) = set ks"
  by (simp add: first_keys_def)

lemma distinct_first_keys [simp]: "distinct (first_keys ks)"
  by (simp add: first_keys_def)

lemma map_filter_snoc:
  "List.map_filter f (xs @ [x]) = List.map_filter f xs @ (case f x of None \<Rightarrow> [] | Some y \<Rightarrow> [y])"
  by (induction xs) (auto split: option.splits)

lemma grouped_other: "r_id r \<noteq> k \<Longrightarrow> grouped k (rows @ [r]) = grouped k rows"
  by (simp add: grouped_def rows_of_def)

lemma grouped_new:
  assumes "r_id r \<notin> r_id ` set rows"
  shows "grouped (r_id r) (rows @ [r]) = add_row r (new_view r)"
proof -
  have "\<And>x. x \<in> set rows \<Longrightarrow> r_id x \<noteq> r_id r"
    using assms by (metis imageI)
  then have "rows_of (r_id r) rows = []"
    by (simp add: rows_of_def filter_empty_conv)
  then have "rows_of (r_id r) (rows @ [r]) = [r]" by (simp add: rows_of_def)
  then show ?thesis
    by (cases "r_completed_date r") (simp_all add: grouped_def add_row_def new_view_def)
qed

lemma grouped_same:
  assumes "r_id r \<in> r_id ` set rows"
  shows "grouped (r_id r) (rows @ [r]) = add_row r (grouped (r_id r) rows)"
proof -
  have ne: "rows_of (r_id r) rows \<noteq> []"
    using assms by (auto simp: rows_of_def filter_empty_conv)
  have s: "rows_of (r_id r) (rows @ [r]) = rows_of (r_id r) rows @ [r]"
    by (simp add: rows_of_def)
  have h: "hd (rows_of (r_id r) rows @ [r]) = hd (rows_of (r_id r) rows)"
    using ne by simp
  show ?thesis
    by (cases "r_completed_date r")
       (simp_all add: grouped_def add_row_def s h map_filter_snoc)
qed

lemma habitsMap_snoc: "habitsMap (rows @ [r]) = group_step (habitsMap rows) r"
  by (simp add: habitsMap_def)

lemma habitsMap_grouped:
  "habitsMap rows = map (\<lambda>k. (k, grouped k rows)) (first_keys (map r_id rows))"
proof (induction rows rule: rev_induct)
  case Nil
  show ?case by (simp add: habitsMap_def first_keys_def)
next
  case (snoc r rows)
  let ?ks = "first_keys (map r_id rows)"
  let ?m = "map (\<lambda>k. (k, grouped k rows)) ?ks"
  have fst_m: "map fst ?m = ?ks" by (simp add: comp_def)
  show ?case
  proof (cases "r_id r \<in> r_id ` set rows")
    case True
    then have "group_step ?m r =
        map (\<lambda>(k, h). if k = r_id r then (k, add_row r h) else (k, h)) ?m"
      by (simp add: group_step_def fst_m del: map_map)
    also have "\<dots> = map (\<lambda>k. (k, grouped k (rows @ [r]))) ?ks"
      using True by (auto simp: grouped_same grouped_other)
    finally have g: "group_step ?m r = map (\<lambda>k. (k, grouped k (rows @ [r]))) ?ks" .
    have k: "first_keys (map r_id (rows @ [r])) = ?ks"
      using True by (simp add: first_keys_snoc)
    show ?thesis by (simp only: habitsMap_snoc snoc.IH g k)
  next
    case False
    then have "group_step ?m r =
        map (\<lambda>(k, h). if k = r_id r then (k, add_row r h) else (k, h))
            (?m @ [(r_id r, new_view r)])"
      by (simp add: group_step_def fst_m del: map_map)
    also have "\<dots> = map (\<lambda>k. (k, grouped k (rows @ [r]))) (?ks @ [r_id r])"
    proof -
      have "k \<noteq> r_id r" if "k \<in> set ?ks" for k
      proof
        assume "k = r_id r"
        with that have "r_id r \<in> set (map r_id rows)" by simp
        then show False using False by simp
      qed
      then have e: "(if k = r_id r then (k, add_row r (grouped k rows)) else (k, grouped k rows))
          = (k, grouped k (rows @ [r]))" if "k \<in> set ?ks" for k
        using that grouped_other [of r k rows] by fastforce
      have "map (\<lambda>(k, h). if k = r_id r then (k, add_row r h) else (k, h)) ?m
          = map (\<lambda>k. if k = r_id r then (k, add_row r (grouped k rows)) else (k, grouped k rows)) ?ks"
        by (simp add: comp_def)
      also have "\<dots> = map (\<lambda>k. (k, grouped k (rows @ [r]))) ?ks"
        by (rule map_cong [OF refl]) (rule e)
      finally have "map (\<lambda>(k, h). if k = r_id r then (k, add_row r h) else (k, h)) ?m
          = map (\<lambda>k. (k, grouped k (rows @ [r]))) ?ks" .
      then show ?thesis using False by (simp add: grouped_new)
    qed
    finally have g: "group_step ?m r = map (\<lambda>k. (k, grouped k (rows @ [r]))) (?ks @ [r_id r])" .
    have k: "first_keys (map r_id (rows @ [r])) = ?ks @ [r_id r]"
      using False by (simp add: first_keys_snoc)
    show ?thesis by (simp only: habitsMap_snoc snoc.IH g k)
  qed
qed

lemma left_join_ids: "r \<in> set (left_join today st h) \<Longrightarrow> r_id r = h_id h"
  by (auto simp: left_join_def join_row_def split: list.splits)

lemma left_join_created: "r \<in> set (left_join today st h) \<Longrightarrow> r_created_at r = h_created_at h"
  by (auto simp: left_join_def join_row_def split: list.splits)

lemma left_join_not_Nil: "left_join today st h \<noteq> []"
  by (simp add: left_join_def split: list.splits)

lemma rows_of_concat:
  assumes "distinct (map h_id hs)" and "h \<in> set hs"
  shows "rows_of (h_id h) (concat (map (left_join today st) hs)) = left_join today st h"
  using assms
proof (induction hs)
  case Nil
  then show ?case by simp
next
  case (Cons a hs)
  have all: "filter (\<lambda>r. r_id r = h_id x) (left_join today st x) = left_join today st x" for x
    by (simp add: left_join_ids)
  have none: "filter (\<lambda>r. r_id r = k) (left_join today st x) = []" if "h_id x \<noteq> k" for x k
    using that by (auto simp: filter_empty_conv dest: left_join_ids)
  show ?case
  proof (cases "a = h")
    case True
    have na: "h_id a \<notin> h_id ` set hs" using Cons.prems(1) by simp
    have "h_id x \<noteq> h_id h" if "x \<in> set hs" for x
      using that na True by (metis imageI)
    then have "rows_of (h_id h) (concat (map (left_join today st) hs)) = []"
      unfolding rows_of_def by (induction hs) (simp_all add: none)
    then show ?thesis using True by (simp add: rows_of_def all)
  next
    case False
    with Cons.prems have h: "h \<in> set hs" and d: "distinct (map h_id hs)" by simp_all
    have na: "h_id a \<notin> h_id ` set hs" using Cons.prems(1) by simp
    from h na have "h_id a \<noteq> h_id h" by (metis imageI)
    then show ?thesis
      using Cons.IH [OF d h] by (simp add: rows_of_def none)
  qed
qed

lemma sorted_map_const: "(\<And>x. x \<in> set xs \<Longrightarrow> f x = c) \<Longrightarrow> sorted (map f xs)"
  by (induction xs) auto

lemma rows_of_habit_completions:
  assumes "distinct (map h_id (habits st))" and "h \<in> set (habits st)" and "h_user_id h = Some uid"
  shows "rows_of (h_id h) (habit_completions today uid st)
       = sort_key (\<lambda>r. map_option uminus (r_completed_date r)) (left_join today st h)"
proof -
  let ?hs = "filter (\<lambda>h. h_user_id h = Some uid) (habits st)"
  let ?k2 = "\<lambda>r. map_option uminus (r_completed_date r)"
  let ?X = "sort_key ?k2 (left_join today st h)"
  have d: "distinct (map h_id ?hs)" using assms(1) by (rule distinct_map_filter)
  have h: "h \<in> set ?hs" using assms(2,3) by simp
  have "rows_of (h_id h) (habit_completions today uid st)
      = sort_key (\<lambda>r. - r_created_at r) (sort_key ?k2
          (rows_of (h_id h) (concat (map (left_join today st) ?hs))))"
    by (simp add: habit_completions_def rows_of_def filter_sort)
  also have "\<dots> = sort_key (\<lambda>r. - r_created_at r) ?X"
    by (simp only: rows_of_concat [OF d h])
  also have "\<dots> = ?X"
  proof (rule sort_key_id_if_sorted)
    show "sorted (map (\<lambda>r. - r_created_at r) ?X)"
      by (rule sorted_map_const [of _ _ "- h_created_at h"]) (simp add: left_join_created)
  qed
  finally show ?thesis .
qed

lemma sorted_uminus_rev:
  fixes xs :: "int list"
  assumes "sorted xs"
  shows "sorted (map uminus (rev xs))"
proof -
  have "sorted (map uminus (rev xs)) = sorted_wrt (\<lambda>x y. - y \<le> - x) xs"
    by (simp only: rev_map [symmetric] sorted_wrt_rev sorted_wrt_map)
  also have "\<dots> = sorted xs" by simp
  finally show ?thesis using assms by simp
qed

lemma desc_dates:
  fixes ds L :: "int list"
  assumes "mset L = mset ds" and "sorted (map uminus L)"
  shows "L = rev (sort ds)"
proof -
  have "sort (map uminus ds) = map uminus L"
    using assms by (intro properties_for_sort) simp_all
  moreover have "sort (map uminus ds) = map uminus (rev (sort ds))"
    by (intro properties_for_sort sorted_uminus_rev) simp_all
  ultimately have "map uminus L = map uminus (rev (sort ds))" by simp
  then show ?thesis by (simp add: inj_map_eq_map)
qed

lemma map_filter_all_Some:
  assumes "\<And>x. x \<in> set xs \<Longrightarrow> f x = Some (g x)"
  shows "List.map_filter f xs = map g xs"
  using assms by (induction xs) simp_all

lemma joined_dates:
  "List.map_filter r_completed_date
     (sort_key (\<lambda>r. map_option uminus (r_completed_date r))
        (map (\<lambda>c. join_row today h (Some (c_completed_date c))) cs))
   = rev (sort (map c_completed_date cs))"
proof -
  let ?g = "\<lambda>c. join_row today h (Some (c_completed_date c))"
  let ?k2 = "\<lambda>r. map_option uminus (r_completed_date r)"
  let ?L = "sort_key ?k2 (map ?g cs)"
  let ?d = "\<lambda>r. the (r_completed_date r)"
  have some: "r_completed_date r = Some (?d r)" if "r \<in> set ?L" for r
    using that by (auto simp: join_row_def)
  then have D: "List.map_filter r_completed_date ?L = map ?d ?L"
    by (rule map_filter_all_Some)
  have "mset (map ?d ?L) = image_mset ?d (mset (map ?g cs))" by simp
  also have "\<dots> = mset (map c_completed_date cs)"
    by (simp add: join_row_def multiset.map_comp comp_def)
  finally have m: "mset (map ?d ?L) = mset (map c_completed_date cs)" .
  have "sorted (map ?k2 ?L)" by (rule sorted_sort_key)
  moreover have "map ?k2 ?L = map Some (map uminus (map ?d ?L))"
    using some by (simp add: comp_def)
  ultimately have "sorted (map Some (map uminus (map ?d ?L)))" by simp
  then have s: "sorted (map uminus (map ?d ?L))"
    by (simp only: sorted_map [of Some] less_eq_option_Some)
  from m s have "map ?d ?L = rev (sort (map c_completed_date cs))" by (rule desc_dates)
  with D show ?thesis by simp
qed

lemma calculateStreak_walk:
  "calculateStreak st today k = streak_walk today (select_completed_desc k st) 0 0"
proof (cases "select_completed_desc k st = []")
  case True
  have "streak_walk today [] 0 0 = 0" by (subst streak_walk.simps) simp
  with True show ?thesis by (simp add: calculateStreak_def)
next
  case False
  then show ?thesis by (simp add: calculateStreak_def)
qed

lemma new_view_joined:
  assumes "r \<in> set (sort_key k (map (\<lambda>c. join_row today h (Some (c_completed_date c))) cs))"
  shows "new_view r = new_view (join_row today h None)"
  using assms by (auto simp: new_view_def join_row_def)

lemma enrich_grouped:
  assumes "distinct (map h_id (habits st))" and "h \<in> set (habits st)" and "h_user_id h = Some uid"
  shows "enrich zone today (grouped (h_id h) (habit_completions today uid st)) = view_of zone today st h"
proof -
  let ?k2 = "\<lambda>r. map_option uminus (r_completed_date r)"
  let ?cs = "filter (\<lambda>c. c_habit_id c = h_id h) (completions st)"
  let ?g = "\<lambda>c. join_row today h (Some (c_completed_date c))"
  have rows: "rows_of (h_id h) (habit_completions today uid st) = sort_key ?k2 (left_join today st h)"
    using assms by (rule rows_of_habit_completions)
  have ds: "select_completed_desc (h_id h) st = rev (sort (map c_completed_date ?cs))"
    by (simp add: select_completed_desc_def)
  show ?thesis
  proof (cases "?cs = []")
    case True
    then have "left_join today st h = [join_row today h None]" by (simp add: left_join_def)
    then have "rows_of (h_id h) (habit_completions today uid st) = [join_row today h None]"
      by (simp add: rows)
    then show ?thesis
      using True
      by (simp add: enrich_def grouped_def view_of_def ds new_view_def join_row_def
            calculateStreak_walk)
  next
    case False
    then have lj: "left_join today st h = map ?g ?cs"
      by (simp add: left_join_def split: list.splits)
    let ?X = "sort_key ?k2 (map ?g ?cs)"
    have X: "rows_of (h_id h) (habit_completions today uid st) = ?X" by (simp add: rows lj)
    have ne: "?X \<noteq> []" using False by (metis length_0_conv length_map length_sort)
    then have "hd ?X \<in> set ?X" by (rule hd_in_set)
    then have nv: "new_view (hd ?X) = new_view (join_row today h None)"
      by (rule new_view_joined)
    have dates: "List.map_filter r_completed_date ?X = rev (sort (map c_completed_date ?cs))"
      by (rule joined_dates)
    have chk: "list_ex r_checked_today ?X \<longleftrightarrow> today \<in> c_completed_date ` set ?cs"
      by (auto simp: list_ex_iff join_row_def)
    show ?thesis
      unfolding enrich_def grouped_def X nv dates view_of_def ds calculateStreak_walk chk
      by (simp add: new_view_def join_row_def Let_def)
  qed
qed

lemma home_shows_store:
  assumes "distinct (map h_id (habits st))"
  shows "mset (fst (home lc zone uid today sortParam st))
       = mset (map (view_of zone today st) (filter (\<lambda>h. h_user_id h = Some uid) (habits st)))"
proof -
  let ?hs = "filter (\<lambda>h. h_user_id h = Some uid) (habits st)"
  let ?rows = "habit_completions today uid st"
  let ?ks = "first_keys (map r_id ?rows)"
  let ?F = "\<lambda>k. enrich zone today (grouped k ?rows)"
  note d = assms
  then have dh: "distinct (map h_id ?hs)" by (rule distinct_map_filter)
  have "set (map r_id ?rows) = r_id ` (\<Union>h \<in> set ?hs. set (left_join today st h))"
    by (simp add: habit_completions_def)
  also have "\<dots> = h_id ` set ?hs"
  proof (intro set_eqI iffI)
    fix k
    assume "k \<in> r_id ` (\<Union>h \<in> set ?hs. set (left_join today st h))"
    then obtain h r where "h \<in> set ?hs" "r \<in> set (left_join today st h)" "k = r_id r" by blast
    then show "k \<in> h_id ` set ?hs" using left_join_ids [of r today st h] by (metis imageI)
  next
    fix k
    assume "k \<in> h_id ` set ?hs"
    then obtain h where h: "h \<in> set ?hs" "k = h_id h" by blast
    obtain r where r: "r \<in> set (left_join today st h)"
      using left_join_not_Nil [of today st h] by (meson last_in_set)
    with h have k: "k = r_id r" by (simp add: left_join_ids)
    from h(1) r have "r \<in> (\<Union>h \<in> set ?hs. set (left_join today st h))" by (rule UN_I)
    then show "k \<in> r_id ` (\<Union>h \<in> set ?hs. set (left_join today st h))"
      unfolding k by (rule imageI)
  qed
  finally have "set ?ks = set (map h_id ?hs)" by simp
  then have ks: "mset ?ks = mset (map h_id ?hs)"
    using dh by (simp only: set_eq_iff_mset_eq_distinct [OF distinct_first_keys dh])
  have "mset (fst (home lc zone uid today sortParam st))
      = mset (map (enrich zone today \<circ> snd) (habitsMap ?rows))"
    by (simp add: home_def Let_def mset_sort_habits)
  also have "map (enrich zone today \<circ> snd) (habitsMap ?rows) = map ?F ?ks"
    by (simp add: habitsMap_grouped comp_def)
  also have "mset (map ?F ?ks) = image_mset ?F (mset (map h_id ?hs))"
    by (simp only: mset_map ks)
  also have "\<dots> = mset (map (\<lambda>h. ?F (h_id h)) ?hs)"
    by (simp add: multiset.map_comp comp_def)
  also have "map (\<lambda>h. ?F (h_id h)) ?hs = map (view_of zone today st) ?hs"
  proof (rule map_cong [OF refl])
    fix h
    assume "h \<in> set ?hs"
    then have "h \<in> set (habits st)" "h_user_id h = Some uid" by simp_all
    with d show "?F (h_id h) = view_of zone today st h" by (rule enrich_grouped)
  qed
  finally show ?thesis .
qed

text \<open>
  So the streak the page shows is the one \<^verbatim>\<open>calculateStreak\<close> computes from the day
  \<open>todayDate\<close>, which is today when the server is in UTC or east of it; and the page does
  not depend on the order in which the completions are held.
\<close>

lemma view_of_mset:
  assumes "mset (completions st') = mset (completions st)"
  shows "view_of zone today st' h = view_of zone today st h"
  using select_completed_desc_mset [OF assms]
  by (simp add: view_of_def calculateStreak_def)

lemma home_order_invariant:
  assumes "distinct (map h_id (habits st))" and "habits st' = habits st"
    and "mset (completions st') = mset (completions st)"
  shows "mset (fst (home lc zone uid today sortParam st'))
       = mset (fst (home lc zone uid today sortParam st))"
proof -
  have v: "view_of zone today st' = view_of zone today st"
    by (rule ext) (rule view_of_mset [OF assms(3)])
  from assms(1,2) have "distinct (map h_id (habits st'))" by simp
  then have "mset (fst (home lc zone uid today sortParam st'))
      = mset (map (view_of zone today st') (filter (\<lambda>h. h_user_id h = Some uid) (habits st')))"
    by (rule home_shows_store)
  also have "\<dots> = mset (map (view_of zone today st) (filter (\<lambda>h. h_user_id h = Some uid) (habits st)))"
    by (simp only: assms(2) v)
  also have "\<dots> = mset (fst (home lc zone uid today sortParam st))"
    using assms(1) by (rule home_shows_store [symmetric])
  finally show ?thesis .
qed

lemma home_streak:
  assumes "wf_db st" and "v \<in> set (fst (home lc zone uid today sortParam st))"
  shows "\<exists>h \<in> set (habits st). h_user_id h = Some uid \<and> v_id v = h_id h
           \<and> v_streak v = calculateStreak st (todayDate zone today) (h_id h)"
proof -
  from assms(1) have "distinct (map h_id (habits st))" by (simp add: wf_db_def)
  then have "mset (fst (home lc zone uid today sortParam st))
      = mset (map (view_of zone today st) (filter (\<lambda>h. h_user_id h = Some uid) (habits st)))"
    by (rule home_shows_store)
  then have "set (fst (home lc zone uid today sortParam st))
      = set (map (view_of zone today st) (filter (\<lambda>h. h_user_id h = Some uid) (habits st)))"
    by (rule mset_eq_setD)
  with assms(2) obtain h where "h \<in> set (habits st)" "h_user_id h = Some uid" "v = view_of zone today st h"
    by auto
  then show ?thesis by (auto simp: view_of_def Let_def)
qed

section \<open>Properties of the statistics\<close>

lemma bitlen_powi_bounds:
  assumes "0 < a"
  shows "2 powi (bitlen a - 1) \<le> (of_int a :: rat)" and "(of_int a :: rat) < 2 powi bitlen a"
proof -
  from assms have b: "1 \<le> bitlen a" by (simp add: bitlen_alt_def)
  from bitlen_bounds [OF assms] have l: "2 ^ nat (bitlen a - 1) \<le> a" and u: "a < 2 ^ nat (bitlen a)"
    by simp_all
  have "(2::rat) powi (bitlen a - 1) = of_int (2 ^ nat (bitlen a - 1))"
    using b by (simp add: power_int_def)
  also have "\<dots> \<le> of_int a" using l by (simp only: of_int_le_iff)
  finally show "2 powi (bitlen a - 1) \<le> (of_int a :: rat)" .
  have "(of_int a :: rat) < of_int (2 ^ nat (bitlen a))" using u by (simp only: of_int_less_iff)
  also have "\<dots> = 2 powi bitlen a"
    using b by (simp add: power_int_def)
  finally show "(of_int a :: rat) < 2 powi bitlen a" .
qed

lemma ilog2_bounds:
  assumes "0 < x"
  shows "2 powi ilog2 x \<le> x" and "x < 2 powi (ilog2 x + 1)"
proof -
  obtain a b where q: "quotient_of x = (a, b)" by (cases "quotient_of x")
  then have b: "0 < b" by (rule quotient_of_denom_pos)
  from q have x: "x = of_int a / of_int b" by (rule quotient_of_div)
  with assms b have a: "0 < a" by (simp add: zero_less_divide_iff)
  let ?k = "bitlen a - bitlen b"
  have bp: "0 < (of_int b :: rat)" using b by simp
  have lo: "2 powi (?k - 1) < x"
  proof -
    have "2 powi (?k - 1) * (of_int b :: rat) < 2 powi (?k - 1) * 2 powi bitlen b"
      using bitlen_powi_bounds(2) [OF b] by simp
    also have "\<dots> = 2 powi (bitlen a - 1)"
      by (simp add: power_int_add [symmetric])
    also have "\<dots> \<le> of_int a" by (rule bitlen_powi_bounds(1) [OF a])
    finally show ?thesis using bp by (simp add: x pos_less_divide_eq)
  qed
  have hi: "x < 2 powi (?k + 1)"
  proof -
    have "(of_int a :: rat) < 2 powi bitlen a" by (rule bitlen_powi_bounds(2) [OF a])
    also have "\<dots> = 2 powi (?k + 1) * 2 powi (bitlen b - 1)"
      by (simp add: power_int_add [symmetric])
    also have "\<dots> \<le> 2 powi (?k + 1) * of_int b"
      using bitlen_powi_bounds(1) [OF b] by simp
    finally show ?thesis using bp by (simp add: x pos_divide_less_eq)
  qed
  have il: "ilog2 x = (if 2 powi ?k \<le> x then ?k else ?k - 1)"
    by (simp add: ilog2_def q Let_def)
  show "2 powi ilog2 x \<le> x" using lo by (simp add: il)
  show "x < 2 powi (ilog2 x + 1)" using hi by (auto simp: il)
qed

lemma round_half_even_cases:
  obtains (down) "round_half_even x = \<lfloor>x\<rfloor>" "x - of_int \<lfloor>x\<rfloor> \<le> 1 / 2"
  | (up) "round_half_even x = \<lfloor>x\<rfloor> + 1" "1 / 2 \<le> x - of_int \<lfloor>x\<rfloor>"
proof (cases "x - of_int \<lfloor>x\<rfloor> < 1 / 2")
  case True
  then have "round_half_even x = \<lfloor>x\<rfloor>" by (simp add: round_half_even_def)
  with True show ?thesis by (intro down) simp_all
next
  case False
  show ?thesis
  proof (cases "round_half_even x = \<lfloor>x\<rfloor>")
    case True
    with False have "x - of_int \<lfloor>x\<rfloor> = 1 / 2"
      by (simp add: round_half_even_def Let_def split: if_splits)
    with True show ?thesis by (intro down) simp_all
  next
    case F: False
    with False have "round_half_even x = \<lfloor>x\<rfloor> + 1"
      by (simp add: round_half_even_def Let_def split: if_splits)
    with False show ?thesis by (intro up) simp_all
  qed
qed

lemma round_half_even_bounds:
  "of_int (round_half_even x) \<le> x + 1 / 2" "x - 1 / 2 \<le> of_int (round_half_even x)"
  "round_half_even x \<le> \<lceil>x\<rceil>" "\<lfloor>x\<rfloor> \<le> round_half_even x"
proof -
  have f: "of_int \<lfloor>x\<rfloor> \<le> x" "x < of_int \<lfloor>x\<rfloor> + 1" by linarith+
  show "of_int (round_half_even x) \<le> x + 1 / 2"
  proof (cases x rule: round_half_even_cases)
    case down
    show ?thesis unfolding down(1) using f by linarith
  next
    case up
    show ?thesis unfolding up(1) using up(2) by simp
  qed
  show "x - 1 / 2 \<le> of_int (round_half_even x)"
  proof (cases x rule: round_half_even_cases)
    case down
    show ?thesis unfolding down(1) using down(2) by simp
  next
    case up
    show ?thesis unfolding up(1) using f by simp
  qed
  show "\<lfloor>x\<rfloor> \<le> round_half_even x"
    by (cases x rule: round_half_even_cases) simp_all
  show "round_half_even x \<le> \<lceil>x\<rceil>"
  proof (cases x rule: round_half_even_cases)
    case down
    then show ?thesis by (simp add: floor_le_ceiling)
  next
    case up
    then have "of_int \<lfloor>x\<rfloor> < x" by simp
    then have "\<lfloor>x\<rfloor> < \<lceil>x\<rceil>" by (simp add: less_ceiling_iff)
    with up show ?thesis by simp
  qed
qed

lemma fl_pos:
  assumes "0 < x"
  shows "fl x = of_int (round_half_even (x / 2 powi (ilog2 x - 52))) * 2 powi (ilog2 x - 52)"
  using assms by (simp add: fl_def Let_def)

lemma fl_nonneg: "0 \<le> x \<Longrightarrow> 0 \<le> fl x"
proof (cases "x = 0")
  case True
  then show ?thesis by (simp add: fl_def)
next
  case False
  assume "0 \<le> x"
  with False have p: "0 < x" by simp
  have "0 \<le> x / 2 powi (ilog2 x - 52)" using p by simp
  then have "0 \<le> \<lfloor>x / 2 powi (ilog2 x - 52)\<rfloor>" by simp
  then have "0 \<le> round_half_even (x / 2 powi (ilog2 x - 52))"
    using round_half_even_bounds(4) [of "x / 2 powi (ilog2 x - 52)"] by linarith
  then show ?thesis by (simp add: fl_pos [OF p])
qed

lemma fl_le:
  assumes "0 < x" and "x \<le> y" and "y * 2 powi (52 - ilog2 x) = of_int k"
  shows "fl x \<le> y"
proof -
  let ?e = "ilog2 x - 52"
  have p: "0 < (2::rat) powi ?e" by simp
  have "y / 2 powi ?e = y * 2 powi (52 - ilog2 x)"
    by (simp add: power_int_diff field_simps)
  then have yk: "y / 2 powi ?e = of_int k" using assms(3) by simp
  have "x / 2 powi ?e \<le> y / 2 powi ?e"
    using assms(2) p by (simp add: divide_right_mono)
  then have "x / 2 powi ?e \<le> of_int k" by (simp add: yk)
  then have "\<lceil>x / 2 powi ?e\<rceil> \<le> k" by (simp add: ceiling_le_iff)
  then have "round_half_even (x / 2 powi ?e) \<le> k"
    using round_half_even_bounds(3) [of "x / 2 powi ?e"] by linarith
  then have "(of_int (round_half_even (x / 2 powi ?e)) :: rat) \<le> of_int k"
    by (simp only: of_int_le_iff)
  then have "(of_int (round_half_even (x / 2 powi ?e)) :: rat) * 2 powi ?e \<le> of_int k * 2 powi ?e"
    using p by (simp add: mult_right_mono)
  also have "(of_int k :: rat) * 2 powi ?e = y" using yk p by (simp add: field_simps)
  finally show ?thesis by (simp add: fl_pos [OF assms(1)])
qed

lemma fl_rel_error:
  assumes "0 < x"
  shows "\<bar>fl x - x\<bar> \<le> x / 2 ^ 53"
proof -
  let ?e = "ilog2 x - 52"
  let ?m = "x / 2 powi ?e"
  have p: "0 < (2::rat) powi ?e" by simp
  have "\<bar>of_int (round_half_even ?m) - ?m\<bar> \<le> 1 / 2"
    using round_half_even_bounds(1,2) [of ?m] by (intro abs_leI) linarith+
  then have "\<bar>of_int (round_half_even ?m) - ?m\<bar> * 2 powi ?e \<le> 1 / 2 * 2 powi ?e"
    using p by (simp add: mult_right_mono)
  moreover have "\<bar>of_int (round_half_even ?m) - ?m\<bar> * 2 powi ?e = \<bar>fl x - x\<bar>"
  proof -
    have "fl x - x = (of_int (round_half_even ?m) - ?m) * 2 powi ?e"
      using p by (simp add: fl_pos [OF assms] algebra_simps)
    then show ?thesis using p by (simp add: abs_mult)
  qed
  moreover have "1 / 2 * 2 powi ?e \<le> x / 2 ^ 53"
  proof -
    have "(2::rat) powi ?e = 2 powi ilog2 x / 2 ^ 52"
      by (simp add: power_int_diff)
    then have "1 / 2 * (2::rat) powi ?e = 2 powi ilog2 x / 2 ^ 53" by simp
    also have "\<dots> \<le> x / 2 ^ 53"
      using ilog2_bounds(1) [OF assms] by (simp add: divide_right_mono)
    finally show ?thesis .
  qed
  ultimately show ?thesis by simp
qed

lemma ilog2_le:
  assumes "0 < x" and "x < 2 ^ k"
  shows "ilog2 x < int k"
proof (rule ccontr)
  assume "\<not> ilog2 x < int k"
  then have "int k \<le> ilog2 x" by simp
  then have "(2::rat) powi int k \<le> 2 powi ilog2 x"
    by (intro power_int_increasing) simp_all
  also have "\<dots> \<le> x" by (rule ilog2_bounds(1) [OF assms(1)])
  finally show False using assms(2) by (simp add: power_int_def)
qed

lemma fl_0: "fl 0 = 0"
  by (simp add: fl_def)

lemma fl_le_nat:
  assumes "0 \<le> x" and "x \<le> of_nat m" and "x < 2 ^ 53"
  shows "fl x \<le> of_nat m"
proof (cases "x = 0")
  case True
  show ?thesis unfolding True fl_0 by simp
next
  case False
  with assms(1) have p: "0 < x" by simp
  have "ilog2 x < 53" using ilog2_le [OF p assms(3)] by simp
  then have e: "0 \<le> 52 - ilog2 x" by simp
  have "(of_nat m :: rat) * 2 powi (52 - ilog2 x) = of_int (int m * 2 ^ nat (52 - ilog2 x))"
    using e by (simp add: power_int_def)
  with p assms(2) show ?thesis by (rule fl_le)
qed

lemma fl_error:
  assumes "0 \<le> x"
  shows "\<bar>fl x - x\<bar> \<le> x / 2 ^ 53"
proof (cases "x = 0")
  case True
  show ?thesis unfolding True fl_0 by simp
next
  case False
  with assms have "0 < x" by simp
  then show ?thesis by (rule fl_rel_error)
qed

lemma Math_round_bounds:
  "\<bar>of_int (Math_round x) - x\<bar> \<le> 1 / 2"
  "0 \<le> x \<Longrightarrow> 0 \<le> Math_round x"
  "x \<le> of_int k \<Longrightarrow> Math_round x \<le> k"
proof -
  have f: "of_int \<lfloor>x + 1 / 2\<rfloor> \<le> x + 1 / 2" "x + 1 / 2 < of_int \<lfloor>x + 1 / 2\<rfloor> + 1"
    by linarith+
  show "\<bar>of_int (Math_round x) - x\<bar> \<le> 1 / 2"
    unfolding Math_round_def using f by (intro abs_leI) linarith+
  show "0 \<le> Math_round x" if "0 \<le> x"
    unfolding Math_round_def using that by (simp add: zero_le_floor)
  show "Math_round x \<le> k" if "x \<le> of_int k"
  proof -
    have "x + 1 / 2 < of_int (k + 1)" using that by simp
    then have "\<lfloor>x + 1 / 2\<rfloor> < k + 1" by (simp only: floor_less_iff)
    then show ?thesis by (simp add: Math_round_def)
  qed
qed

lemma abs_times_100: "\<bar>100 * t\<bar> = 100 * \<bar>t\<bar>" for t :: rat
  by (simp add: abs_mult)

lemma rate_bounds:
  fixes c n :: nat
  assumes "c \<le> n" and "0 < n"
  defines "r \<equiv> Math_round (js_mul (js_div (of_nat c) (of_nat n)) 100)"
  shows "0 \<le> r" and "r \<le> 100"
    and "\<bar>of_int r - 100 * of_nat c / of_nat n\<bar> \<le> (1 / 2 + 1 / 2 ^ 45 :: rat)"
proof -
  let ?x = "of_nat c / of_nat n :: rat"
  let ?a = "fl ?x"
  let ?z = "?a * 100"
  let ?b = "fl ?z"
  have r: "r = Math_round ?b" by (simp add: r_def js_mul_def js_div_def)
  have x0: "0 \<le> ?x" by simp
  have x1: "?x \<le> 1" using assms by (simp add: divide_le_eq_1)
  have a0: "0 \<le> ?a" using x0 by (rule fl_nonneg)
  have a1: "?a \<le> 1"
  proof -
    have "?x < 2 ^ 53" using x1 by simp
    with x0 x1 have "fl ?x \<le> of_nat 1" by (intro fl_le_nat) simp_all
    then show ?thesis by simp
  qed
  have ae: "\<bar>?a - ?x\<bar> \<le> 1 / 2 ^ 53"
  proof -
    have "\<bar>?a - ?x\<bar> \<le> ?x / 2 ^ 53" by (rule fl_error [OF x0])
    also have "\<dots> \<le> 1 / 2 ^ 53" using x1 by (simp add: divide_right_mono)
    finally show ?thesis .
  qed
  have z0: "0 \<le> ?z" using a0 by simp
  have z1: "?z \<le> 100" using a1 by simp
  have b0: "0 \<le> ?b" using z0 by (rule fl_nonneg)
  have b1: "?b \<le> 100"
  proof -
    have "?z < 2 ^ 53" using z1 by simp
    with z0 z1 have "fl ?z \<le> of_nat 100" by (intro fl_le_nat) simp_all
    then show ?thesis by simp
  qed
  have be: "\<bar>?b - ?z\<bar> \<le> 100 / 2 ^ 53"
  proof -
    have "\<bar>?b - ?z\<bar> \<le> ?z / 2 ^ 53" by (rule fl_error [OF z0])
    also have "\<dots> \<le> 100 / 2 ^ 53" using z1 by (simp add: divide_right_mono)
    finally show ?thesis .
  qed
  show "0 \<le> r" unfolding r using b0 by (rule Math_round_bounds(2))
  show "r \<le> 100" unfolding r using b1 Math_round_bounds(3) [of ?b 100] by simp
  have "\<bar>of_int r - ?b\<bar> \<le> 1 / 2" unfolding r by (rule Math_round_bounds(1))
  moreover have "\<bar>?z - 100 * ?x\<bar> \<le> 100 / 2 ^ 53"
  proof -
    have "?z - 100 * ?x = 100 * (?a - ?x)" by (simp add: algebra_simps)
    then have "\<bar>?z - 100 * ?x\<bar> = \<bar>100 * (?a - ?x)\<bar>" by (simp only:)
    also have "\<dots> = 100 * \<bar>?a - ?x\<bar>" by (rule abs_times_100)
    also have "\<dots> \<le> 100 * (1 / 2 ^ 53)" using ae by (intro mult_left_mono) simp_all
    finally show ?thesis by simp
  qed
  ultimately have "\<bar>of_int r - 100 * ?x\<bar> \<le> 1 / 2 + 100 / 2 ^ 53 + 100 / 2 ^ 53"
    using be by linarith
  also have "\<dots> \<le> (1 / 2 + 1 / 2 ^ 45 :: rat)" by simp
  finally show "\<bar>of_int r - 100 * of_nat c / of_nat n\<bar> \<le> (1 / 2 + 1 / 2 ^ 45 :: rat)"
    by simp
qed

lemma home_stats:
  "snd (home lc zone userId today sortParam st)
     = stats_of zone today (fst (home lc zone userId today sortParam st))"
  by (simp add: home_def Let_def)

lemma foldl_plus_sum_list: "foldl (\<lambda>sum h. sum + f h) (a::int) hs = a + sum_list (map f hs)"
  by (induction hs arbitrary: a) simp_all

lemma week_window:
  assumes "- 1440 < zone" and "zone < 1440"
  shows "setDate_back 7 (utc_midnight today) \<le> local_midnight zone d
         \<longleftrightarrow> (if 0 < zone then today - 6 \<le> d else today - 7 \<le> d)"
proof -
  have "(today - 7) * 1440 + zone \<le> d * 1440 \<longleftrightarrow> (if 0 < zone then today - 6 \<le> d else today - 7 \<le> d)"
    using assms by (auto simp: algebra_simps)
  then show ?thesis
    by (simp add: setDate_back_def utc_midnight_def local_midnight_def algebra_simps)
qed

lemma week_total:
  assumes "- 1440 < zone" and "zone < 1440"
  shows "totalCompletionsThisWeek (stats_of zone today hs)
     = (\<Sum>h\<leftarrow>hs. int (length (filter (\<lambda>d. if 0 < zone then today - 6 \<le> d else today - 7 \<le> d)
                                     (v_completions h))))"
  by (simp add: stats_of_def foldl_plus_sum_list week_window [OF assms])

text \<open>
  C1 against the code, on a server in UTC (zone 0, the zone of the image). \<^verbatim>\<open>weekAgo\<close>
  is seven days before today and the comparison is \<^verbatim>\<open>>=\<close>, so the sum takes the
  completions of eight days (and any later one): a habit whose only completion is dated
  exactly 7 days before today counts 1, where the window from today minus 6 days through
  today holds none. Lemma \<open>week_total\<close> gives the sum in every zone: the same eight days in
  UTC and west of it, seven days east of it.
\<close>

theorem week_total_counts_day_seven:
  "fst (home lc 0 1 19800 None week_db) =
     [\<lparr>v_id = 1, v_name = js ''Drink water'', v_created_at = 1000, v_reminderTime = Some 28800,
       v_checkedInToday = False, v_streak = 0, v_completions = [19793], v_totalCompletions = 1\<rparr>]
   \<and> totalCompletionsThisWeek (snd (home lc 0 1 19800 None week_db)) = 1
   \<and> length (filter (\<lambda>d. 19800 - 6 \<le> d \<and> d \<le> 19800) [19793 :: int]) = 0"
  by (simp add: home_defs zone_defs stats_of_def week_db_def water_habit_def streak_walk.simps js_def)

lemma percentage_frac:
  assumes "0 < n"
  obtains j :: int where "0 \<le> j" "j < 2 * int n"
    and "percentage c n - of_int \<lfloor>percentage c n\<rfloor> = of_int j / of_int (2 * int n)"
proof -
  let ?x = "percentage c n"
  let ?j = "200 * int c - 2 * int n * \<lfloor>?x\<rfloor>"
  have n: "0 < (of_nat n :: rat)" using assms by simp
  have x: "?x * of_nat n = 100 * of_nat c" using assms by (simp add: percentage_def)
  have "(of_int ?j :: rat) = 2 * (?x * of_nat n) - 2 * of_nat n * of_int \<lfloor>?x\<rfloor>"
    by (simp add: x)
  then have j: "(of_int ?j :: rat) = (?x - of_int \<lfloor>?x\<rfloor>) * (2 * of_nat n)"
    by (simp add: algebra_simps)
  have f: "0 \<le> ?x - of_int \<lfloor>?x\<rfloor>" "?x - of_int \<lfloor>?x\<rfloor> < 1" by linarith+
  have "0 \<le> (of_int ?j :: rat)" unfolding j using f(1) n by simp
  then have j0: "0 \<le> ?j" by (simp only: of_int_0_le_iff)
  have "(of_int ?j :: rat) < 1 * (2 * of_nat n)"
    unfolding j using f(2) n by (intro mult_strict_right_mono) simp_all
  then have "(of_int ?j :: rat) < of_int (2 * int n)" by simp
  then have j1: "?j < 2 * int n" by (simp only: of_int_less_iff)
  have "?x - of_int \<lfloor>?x\<rfloor> = of_int ?j / of_int (2 * int n)"
    unfolding j using n by simp
  with j0 j1 show ?thesis by (rule that)
qed

lemma nearest_of_bound:
  fixes r :: int
  assumes n: "0 < n" "n < 2 ^ 32"
    and e: "\<bar>of_int r - percentage c n\<bar> \<le> (1 / 2 + 1 / 2 ^ 45 :: rat)"
  shows "percentage c n - of_int \<lfloor>percentage c n\<rfloor> \<noteq> 1 / 2 \<Longrightarrow> r = \<lfloor>percentage c n + 1 / 2\<rfloor>"
    and "percentage c n - of_int \<lfloor>percentage c n\<rfloor> = 1 / 2
         \<Longrightarrow> r = \<lfloor>percentage c n\<rfloor> \<or> r = \<lfloor>percentage c n\<rfloor> + 1"
proof -
  let ?x = "percentage c n"
  define k where "k = \<lfloor>?x\<rfloor>"
  define f where "f = ?x - of_int k"
  define d :: rat where "d = of_int (2 * int n)"
  define \<epsilon> :: rat where "\<epsilon> = 1 / 2 ^ 45"
  obtain j :: int where j: "0 \<le> j" "j < 2 * int n" and fj: "f = of_int j / d"
    unfolding f_def k_def d_def using n(1) by (rule percentage_frac)
  have d: "0 < d" using n(1) by (simp add: d_def)
  have "2 * int n < 2 ^ 33" using n(2) by simp
  then have "d < of_int (2 ^ 33)" unfolding d_def by (simp only: of_int_less_iff)
  then have d33: "d < 2 ^ 33" by simp
  have eps: "\<epsilon> < 1 / d"
  proof -
    have "\<epsilon> < 1 / 2 ^ 33" by (simp add: \<epsilon>_def)
    also have "\<dots> < 1 / d" using d d33 by (simp add: frac_less2)
    finally show ?thesis .
  qed
  have e1: "\<epsilon> < 1 / 2" by (simp add: \<epsilon>_def)
  have fd: "f * d = of_int j" using fj d by simp
  have f0: "0 \<le> f" and f1: "f < 1" unfolding f_def k_def by linarith+
  have x: "?x = of_int k + f" by (simp add: f_def)
  have "\<bar>of_int r - ?x\<bar> \<le> 1 / 2 + \<epsilon>" using e by (simp only: \<epsilon>_def)
  then have rr: "of_int r - of_int k - f \<le> 1 / 2 + \<epsilon>" "- (1 / 2 + \<epsilon>) \<le> of_int r - of_int k - f"
    unfolding x by linarith+
  have int_between: "r = a" if "(of_int a :: rat) - 1 < of_int r" "(of_int r :: rat) < of_int a + 1" for a
  proof -
    from that have "(of_int (a - 1) :: rat) < of_int r" "(of_int r :: rat) < of_int (a + 1)" by simp_all
    then have "a - 1 < r" "r < a + 1" by (simp_all only: of_int_less_iff)
    then show ?thesis by linarith
  qed
  have tie: "r = k \<or> r = k + 1" if "f = 1 / 2"
  proof (cases "(of_int r :: rat) < of_int k + 1")
    case True
    moreover from rr(2) that e1 have "(of_int k :: rat) - 1 < of_int r" by linarith
    ultimately have "r = k" by (intro int_between)
    then show ?thesis by simp
  next
    case False
    then have "(of_int (k + 1) :: rat) - 1 < of_int r" by simp
    moreover from rr(1) that e1 have "(of_int r :: rat) < of_int (k + 1) + 1" by simp
    ultimately have "r = k + 1" by (intro int_between)
    then show ?thesis by simp
  qed
  have nontie: "r = \<lfloor>?x + 1 / 2\<rfloor>" if nt: "f \<noteq> 1 / 2"
  proof -
    have jn: "j \<noteq> int n"
    proof
      assume "j = int n"
      then have "f = of_int (int n) / of_int (2 * int n)" by (simp add: fj d_def)
      also have "\<dots> = 1 / 2" using n(1) by simp
      finally show False using nt by simp
    qed
    have dn: "d = of_int (2 * int n)" by (rule d_def)
    show ?thesis
    proof (cases "j < int n")
      case True
      then have "2 * j + 2 \<le> 2 * int n" by simp
      then have "(of_int (2 * j + 2) :: rat) \<le> of_int (2 * int n)" by (simp only: of_int_le_iff)
      then have "2 * (of_int j :: rat) + 2 \<le> d" unfolding dn by simp
      then have "2 * (f * d) + 2 \<le> d" by (simp only: fd)
      then have "f * d \<le> d / 2 - 1" by linarith
      also have "\<dots> = (1 / 2 - 1 / d) * d" using d by (simp add: algebra_simps)
      finally have fl: "f \<le> 1 / 2 - 1 / d" using d by (simp only: mult_le_cancel_right_pos)
      have dp: "0 < 1 / d" using d by simp
      have "\<lfloor>?x + 1 / 2\<rfloor> = k"
      proof (rule floor_unique)
        show "of_int k \<le> ?x + 1 / 2" unfolding x using f0 by simp
        show "?x + 1 / 2 < of_int k + 1" unfolding x using fl dp by linarith
      qed
      moreover have "r = k"
      proof (rule int_between)
        from rr(1) fl eps show "(of_int r :: rat) < of_int k + 1" by linarith
        from rr(2) f0 e1 show "(of_int k :: rat) - 1 < of_int r" by linarith
      qed
      ultimately show ?thesis by simp
    next
      case False
      with jn have "2 * int n + 2 \<le> 2 * j" by simp
      then have "(of_int (2 * int n + 2) :: rat) \<le> of_int (2 * j)" by (simp only: of_int_le_iff)
      then have "d + 2 \<le> 2 * (of_int j :: rat)" unfolding dn by simp
      then have "d + 2 \<le> 2 * (f * d)" by (simp only: fd)
      then have "d / 2 + 1 \<le> f * d" by linarith
      moreover have "d / 2 + 1 = (1 / 2 + 1 / d) * d" using d by (simp add: algebra_simps)
      ultimately have "(1 / 2 + 1 / d) * d \<le> f * d" by simp
      then have fu: "1 / 2 + 1 / d \<le> f" using d by (simp only: mult_le_cancel_right_pos)
      have dp: "0 < 1 / d" using d by simp
      have "\<lfloor>?x + 1 / 2\<rfloor> = k + 1"
      proof (rule floor_unique)
        have "1 / 2 < f" using fu dp by linarith
        then show "of_int (k + 1) \<le> ?x + 1 / 2" unfolding x by simp
        show "?x + 1 / 2 < of_int (k + 1) + 1" unfolding x using f1 by simp
      qed
      moreover have "r = k + 1"
      proof (rule int_between)
        from rr(1) f1 e1 show "(of_int r :: rat) < of_int (k + 1) + 1" by simp
        from rr(2) fu eps have "(of_int k :: rat) < of_int r" by linarith
        then show "(of_int (k + 1) :: rat) - 1 < of_int r" by simp
      qed
      ultimately show ?thesis by simp
    qed
  qed
  show "percentage c n - of_int \<lfloor>percentage c n\<rfloor> \<noteq> 1 / 2 \<Longrightarrow> r = \<lfloor>percentage c n + 1 / 2\<rfloor>"
    using nontie by (simp add: f_def k_def)
  show "percentage c n - of_int \<lfloor>percentage c n\<rfloor> = 1 / 2
         \<Longrightarrow> r = \<lfloor>percentage c n\<rfloor> \<or> r = \<lfloor>percentage c n\<rfloor> + 1"
    using tie by (simp add: f_def k_def)
qed

lemma rate_29_of_200: "Math_round (js_mul (js_div 29 200) 100) = 14"
  by code_simp

lemma rate_23_of_40: "Math_round (js_mul (js_div 23 40) 100) = 57"
  by code_simp

lemma rate_1_of_8: "Math_round (js_mul (js_div 1 8) 100) = 13"
  by code_simp

lemma rate_1_of_3: "Math_round (js_mul (js_div 1 3) 100) = 33"
  by code_simp

lemma stats_of_sample_views:
  assumes "c \<le> n"
  shows "totalHabits (stats_of zone today (sample_views c n)) = n"
    and "completedToday (stats_of zone today (sample_views c n)) = c"
  using assms by (simp_all add: stats_of_def sample_views_def)

text \<open>
  C6. \<open>completionRate\<close> is 0 when there is no habit and otherwise
  \<^verbatim>\<open>Math.round((completedToday / totalHabits) * 100)\<close> in the double arithmetic of the
  code; it lies between 0 and 100. For a list of fewer than \<open>2^32\<close> habits (every array) it
  is the rounding of the exact percentage whenever that percentage is not halfway between
  two integers; when the percentage is \<open>k + 1/2\<close> it is \<open>k\<close> or \<open>k + 1\<close>. The
  statistics of the home page are those of the list it shows.
\<close>

theorem completion_rate:
  "totalHabits (stats_of zone today hs) = length hs
   \<and> completedToday (stats_of zone today hs) = length (filter v_checkedInToday hs)
   \<and> completionRate (stats_of zone today hs) =
       (if 0 < totalHabits (stats_of zone today hs)
        then Math_round (js_mul (js_div (of_nat (completedToday (stats_of zone today hs)))
                                        (of_nat (totalHabits (stats_of zone today hs)))) 100)
        else 0)
   \<and> completionRate (stats_of zone today []) = 0
   \<and> 0 \<le> completionRate (stats_of zone today hs)
   \<and> completionRate (stats_of zone today hs) \<le> 100
   \<and> (hs \<noteq> [] \<and> length hs < 2 ^ 32
        \<and> percentage (length (filter v_checkedInToday hs)) (length hs)
            - of_int \<lfloor>percentage (length (filter v_checkedInToday hs)) (length hs)\<rfloor> \<noteq> 1 / 2
      \<longrightarrow> completionRate (stats_of zone today hs)
            = Math_round (percentage (length (filter v_checkedInToday hs)) (length hs)))
   \<and> (hs \<noteq> [] \<and> length hs < 2 ^ 32
        \<and> percentage (length (filter v_checkedInToday hs)) (length hs)
            - of_int \<lfloor>percentage (length (filter v_checkedInToday hs)) (length hs)\<rfloor> = 1 / 2
      \<longrightarrow> completionRate (stats_of zone today hs)
              = \<lfloor>percentage (length (filter v_checkedInToday hs)) (length hs)\<rfloor>
          \<or> completionRate (stats_of zone today hs)
              = \<lfloor>percentage (length (filter v_checkedInToday hs)) (length hs)\<rfloor> + 1)
   \<and> snd (home lc zone userId today sortParam st)
       = stats_of zone today (fst (home lc zone userId today sortParam st))"
proof -
  let ?s = "stats_of zone today hs"
  let ?c = "length (filter v_checkedInToday hs)"
  let ?n = "length hs"
  let ?p = "percentage ?c ?n"
  have c: "completedToday ?s = ?c" and n: "totalHabits ?s = ?n"
    by (simp_all add: stats_of_def)
  have r: "completionRate ?s =
      (if 0 < ?n then Math_round (js_mul (js_div (of_nat ?c) (of_nat ?n)) 100) else 0)"
    by (simp add: stats_of_def)
  have e: "completionRate (stats_of zone today []) = 0"
    by (simp add: stats_of_def)
  have le: "?c \<le> ?n" by simp
  have b: "0 \<le> completionRate ?s \<and> completionRate ?s \<le> 100"
  proof (cases "0 < ?n")
    case True
    with rate_bounds(1,2) [OF le True] show ?thesis by (simp only: r if_True)
  next
    case False
    then show ?thesis by (simp add: stats_of_def)
  qed
  have err: "\<bar>of_int (completionRate ?s) - ?p\<bar> \<le> (1 / 2 + 1 / 2 ^ 45 :: rat)" if "hs \<noteq> []"
  proof -
    from that have p: "0 < ?n" by simp
    from rate_bounds(3) [OF le p] show ?thesis by (simp only: r p if_True percentage_def)
  qed
  have nt: "completionRate ?s = Math_round ?p"
    if "hs \<noteq> []" "?n < 2 ^ 32" "?p - of_int \<lfloor>?p\<rfloor> \<noteq> 1 / 2"
  proof -
    from that(1) have p: "0 < ?n" by simp
    from nearest_of_bound(1) [OF p that(2) err [OF that(1)] that(3)]
    show ?thesis by (simp only: Math_round_def)
  qed
  have t: "completionRate ?s = \<lfloor>?p\<rfloor> \<or> completionRate ?s = \<lfloor>?p\<rfloor> + 1"
    if "hs \<noteq> []" "?n < 2 ^ 32" "?p - of_int \<lfloor>?p\<rfloor> = 1 / 2"
  proof -
    from that(1) have p: "0 < ?n" by simp
    from nearest_of_bound(2) [OF p that(2) err [OF that(1)] that(3)] show ?thesis .
  qed
  have r': "completionRate ?s =
       (if 0 < totalHabits ?s
        then Math_round (js_mul (js_div (of_nat (completedToday ?s)) (of_nat (totalHabits ?s))) 100)
        else 0)"
    by (simp only: c n r)
  from n c r' e b nt t home_stats [of lc zone userId today sortParam st] show ?thesis
    by blast
qed

theorem completion_rate_witness:
  "rate_views \<noteq> [] \<and> length rate_views < 2 ^ 32
   \<and> length (filter v_checkedInToday rate_views) = 29 \<and> length rate_views = 200
   \<and> percentage 29 200 - of_int \<lfloor>percentage 29 200\<rfloor> = 1 / 2
   \<and> \<lfloor>percentage 29 200\<rfloor> = 14
   \<and> completionRate (stats_of 0 19800 rate_views) = 14
   \<and> sample_views 1 3 \<noteq> [] \<and> length (sample_views 1 3) < 2 ^ 32
   \<and> length (filter v_checkedInToday (sample_views 1 3)) = 1 \<and> length (sample_views 1 3) = 3
   \<and> percentage 1 3 - of_int \<lfloor>percentage 1 3\<rfloor> \<noteq> 1 / 2
   \<and> Math_round (percentage 1 3) = 33
   \<and> completionRate (stats_of 0 19800 (sample_views 1 3)) = 33
   \<and> completionRate (stats_of 0 19800 []) = 0"
proof -
  have ne: "rate_views \<noteq> []" and l: "length rate_views < 2 ^ 32"
    and c: "length (filter v_checkedInToday rate_views) = 29" and n: "length rate_views = 200"
    by (simp_all add: rate_views_def)
  have p: "percentage 29 200 = 29 / 2" by (simp add: percentage_def)
  have f: "\<lfloor>percentage 29 200\<rfloor> = 14" unfolding p by (rule floor_unique) simp_all
  have tie: "percentage 29 200 - of_int \<lfloor>percentage 29 200\<rfloor> = 1 / 2"
    unfolding f unfolding p by simp
  note t = completion_rate [of 0 19800 rate_views]
  from t have "completionRate (stats_of 0 19800 rate_views) =
       (if 0 < totalHabits (stats_of 0 19800 rate_views)
        then Math_round (js_mul (js_div (of_nat (completedToday (stats_of 0 19800 rate_views)))
                                        (of_nat (totalHabits (stats_of 0 19800 rate_views)))) 100)
        else 0)"
      and "totalHabits (stats_of 0 19800 rate_views) = length rate_views"
      and "completedToday (stats_of 0 19800 rate_views) = length (filter v_checkedInToday rate_views)"
    by blast+
  then have r: "completionRate (stats_of 0 19800 rate_views) = 14"
    by (simp add: n c rate_29_of_200)
  have ne': "sample_views 1 3 \<noteq> []" and l': "length (sample_views 1 3) < 2 ^ 32"
    and c': "length (filter v_checkedInToday (sample_views 1 3)) = 1"
    and n': "length (sample_views 1 3) = 3"
    by (simp_all add: sample_views_def)
  have p': "percentage 1 3 = 100 / 3" by (simp add: percentage_def)
  have f': "\<lfloor>percentage 1 3\<rfloor> = 33" unfolding p' by (rule floor_unique) simp_all
  have nt: "percentage 1 3 - of_int \<lfloor>percentage 1 3\<rfloor> \<noteq> 1 / 2"
    unfolding f' unfolding p' by simp
  have m: "Math_round (percentage 1 3) = 33"
    unfolding p' Math_round_def by (rule floor_unique) simp_all
  note u = completion_rate [of 0 19800 "sample_views 1 3"]
  from u ne' l' nt have "completionRate (stats_of 0 19800 (sample_views 1 3))
      = Math_round (percentage (length (filter v_checkedInToday (sample_views 1 3)))
                               (length (sample_views 1 3)))"
    unfolding c' n' by blast
  then have r': "completionRate (stats_of 0 19800 (sample_views 1 3)) = 33"
    by (simp only: c' n' m)
  from t have z: "completionRate (stats_of 0 19800 []) = 0" by blast
  from ne l c n tie f r ne' l' c' n' nt m r' z show ?thesis by blast
qed

text \<open>
  C6 as it was claimed fails where the exact percentage is halfway between two integers.
  With 23 of 40 habits checked in the percentage is 57.5 and its rounding 58, but the
  quotient 23/40 is not a double, \<^verbatim>\<open>(23 / 40) * 100\<close> is the double just below 57.5, and
  the code gives 57. With 1 of 8 the percentage 12.5 is reached exactly and the code gives
  13: so rounding the exact percentage half down does not give the code's values either.
\<close>

theorem completion_rate_counterexample:
  "totalHabits (stats_of 0 19800 (sample_views 23 40)) = 40
   \<and> completedToday (stats_of 0 19800 (sample_views 23 40)) = 23
   \<and> completionRate (stats_of 0 19800 (sample_views 23 40)) = 57
   \<and> percentage 23 40 = 115 / 2
   \<and> Math_round (percentage 23 40) = 58
   \<and> totalHabits (stats_of 0 19800 (sample_views 1 8)) = 8
   \<and> completedToday (stats_of 0 19800 (sample_views 1 8)) = 1
   \<and> completionRate (stats_of 0 19800 (sample_views 1 8)) = 13
   \<and> percentage 1 8 = 25 / 2"
proof -
  have a: "completionRate (stats_of 0 19800 (sample_views 23 40)) = 57"
    by (simp add: stats_of_def sample_views_def rate_23_of_40)
  have b: "completionRate (stats_of 0 19800 (sample_views 1 8)) = 13"
    by (simp add: stats_of_def sample_views_def rate_1_of_8)
  have p: "percentage 23 40 = 115 / 2" "percentage 1 8 = 25 / 2"
    by (simp_all add: percentage_def)
  have m: "Math_round (percentage 23 40) = 58"
    unfolding p Math_round_def by (rule floor_unique) simp_all
  from a b p m show ?thesis
    by (simp add: stats_of_sample_views)
qed

section \<open>Properties of the calendar query\<close>

lemma DaysInYear_range: "365 \<le> DaysInYear y" "DaysInYear y \<le> 366"
  by (simp_all add: DaysInYear_def)

lemma DayFromYear_add: "DayFromYear y + 365 * int n \<le> DayFromYear (y + int n)"
proof (induction n)
  case 0
  then show ?case by simp
next
  case (Suc n)
  have "y + int (Suc n) = (y + int n) + 1" by simp
  then have "DayFromYear (y + int (Suc n)) = DayFromYear (y + int n) + DaysInYear (y + int n)"
    by (simp only: DayFromYear_step)
  with Suc DaysInYear_range(1) [of "y + int n"] show ?case by simp
qed

lemma DayFromYear_less: 
  assumes "a < b" 
  shows "DayFromYear a < DayFromYear b"
proof -
  have b: "b = a + int (nat (b - a))" and n: "0 < nat (b - a)" using assms by simp_all
  from DayFromYear_add [of a "nat (b - a)"] n have "DayFromYear a < DayFromYear (a + int (nat (b - a)))"
    by linarith
  with b show ?thesis by simp
qed

lemma DayFromYear_less_iff: "DayFromYear a < DayFromYear b \<longleftrightarrow> a < b"
  using DayFromYear_less [of a b] DayFromYear_less [of b a] by (cases a b rule: linorder_cases) auto

lemma year_up_unique:
  assumes "DayFromYear y \<le> d" and "d < DayFromYear (y + 1)"
  shows "y0 \<le> y \<Longrightarrow> year_up d y0 = y"
proof (induction "nat (y - y0)" arbitrary: y0)
  case 0
  then have "y0 = y" by simp
  with assms(2) show ?case by (subst year_up.simps) simp
next
  case (Suc n)
  then have lt: "y0 < y" by linarith
  then have "y0 + 1 \<le> y" by simp
  then have "DayFromYear (y0 + 1) \<le> DayFromYear y"
    using DayFromYear_less [of "y0 + 1" y] by (cases "y0 + 1 = y") auto
  with assms(1) have c: "DayFromYear (y0 + 1) \<le> d" by simp
  have "n = nat (y - (y0 + 1))" using Suc.hyps(2) by linarith
  then have "year_up d (y0 + 1) = y" using \<open>y0 + 1 \<le> y\<close> by (rule Suc.hyps(1))
  with c show ?case by (subst year_up.simps) simp
qed

lemma DayFromYear_1970: "DayFromYear 1970 = 0"
  by (simp add: DayFromYear_def)

lemma YearFromDay_start:
  "DayFromYear (1970 + (if 0 \<le> d then d div 366 else d div 365)) \<le> d"
proof (cases "0 \<le> d")
  case True
  define k where "k = nat (d div 366)"
  have k: "int k = d div 366" using True by (simp add: k_def pos_imp_zdiv_nonneg_iff)
  have "DayFromYear (1970 + int k) \<le> 366 * int k"
  proof (induction k)
    case 0
    show ?case by (simp add: DayFromYear_1970)
  next
    case (Suc k)
    have "1970 + int (Suc k) = (1970 + int k) + 1" by simp
    then have "DayFromYear (1970 + int (Suc k)) = DayFromYear (1970 + int k) + DaysInYear (1970 + int k)"
      by (simp only: DayFromYear_step)
    with Suc DaysInYear_range(2) [of "1970 + int k"] show ?case by simp
  qed
  moreover have "366 * (d div 366) \<le> d"
    using mult_div_mod_eq [of 366 d] pos_mod_sign [of 366 d] by linarith
  ultimately show ?thesis using True k by simp
next
  case False
  define k where "k = nat (- (d div 365))"
  have neg: "d div 365 < 0" using False by (simp add: neg_imp_zdiv_neg_iff)
  have k: "- int k = d div 365" using neg by (simp add: k_def)
  have step: "DayFromYear (1970 - int k) \<le> - 365 * int k" for k
  proof (induction k)
    case 0
    show ?case by (simp add: DayFromYear_1970)
  next
    case (Suc k)
    have "1970 - int k = (1970 - int (Suc k)) + 1" by simp
    then have "DayFromYear (1970 - int k) = DayFromYear (1970 - int (Suc k)) + DaysInYear (1970 - int (Suc k))"
      by (simp only: DayFromYear_step)
    with Suc DaysInYear_range(1) [of "1970 - int (Suc k)"] show ?case by simp
  qed
  have le: "365 * (d div 365) \<le> d"
    using mult_div_mod_eq [of 365 d] pos_mod_sign [of 365 d] by linarith
  have e: "d div 365 = - int k" using k by simp
  have "DayFromYear (1970 + d div 365) = DayFromYear (1970 - int k)" by (simp add: e)
  also have "\<dots> \<le> - 365 * int k" by (rule step)
  also have "\<dots> = 365 * (d div 365)" by (simp add: e)
  also have "\<dots> \<le> d" by (rule le)
  finally show ?thesis using False by simp
qed

lemma YearFromDay_unique:
  assumes "DayFromYear y \<le> d" and "d < DayFromYear (y + 1)"
  shows "YearFromDay d = y"
proof -
  let ?y0 = "1970 + (if 0 \<le> d then d div 366 else d div 365)"
  have "DayFromYear ?y0 \<le> d" by (rule YearFromDay_start)
  with assms(2) have "DayFromYear ?y0 < DayFromYear (y + 1)" by simp
  then have "?y0 < y + 1" by (simp only: DayFromYear_less_iff)
  then have "?y0 \<le> y" by simp
  with assms show ?thesis unfolding YearFromDay_def by (rule year_up_unique)
qed

lemma day_in_year:
  assumes "0 \<le> w" and "w < DaysInYear yr"
  shows "YearFromDay (DayFromYear yr + w) = yr"
    and "DayWithinYear (DayFromYear yr + w) = w"
    and "InLeapYear (DayFromYear yr + w) = (if DaysInYear yr = 366 then 1 else 0)"
proof -
  have "DayFromYear yr \<le> DayFromYear yr + w" using assms(1) by simp
  moreover have "DayFromYear yr + w < DayFromYear (yr + 1)"
    using assms(2) by (simp add: DayFromYear_step)
  ultimately show y: "YearFromDay (DayFromYear yr + w) = yr" by (rule YearFromDay_unique)
  show "DayWithinYear (DayFromYear yr + w) = w" by (simp add: DayWithinYear_def y)
  show "InLeapYear (DayFromYear yr + w) = (if DaysInYear yr = 366 then 1 else 0)"
    by (simp add: InLeapYear_def y)
qed

lemma month_cases:
  fixes m :: int
  assumes "1 \<le> m" and "m \<le> 12"
  obtains "m = 1" | "m = 2" | "m = 3" | "m = 4" | "m = 5" | "m = 6"
    | "m = 7" | "m = 8" | "m = 9" | "m = 10" | "m = 11" | "m = 12"
proof -
  from assms have "m = 1 \<or> m = 2 \<or> m = 3 \<or> m = 4 \<or> m = 5 \<or> m = 6
      \<or> m = 7 \<or> m = 8 \<or> m = 9 \<or> m = 10 \<or> m = 11 \<or> m = 12"
    by presburger
  then show thesis using that by blast
qed

lemma leap_iff: "DaysInYear y = 366 \<longleftrightarrow> y mod 4 = 0 \<and> (y mod 100 \<noteq> 0 \<or> y mod 400 = 0)"
  using mod_4_100 [of y] mod_100_400 [of y] by (auto simp: DaysInYear_def)

lemma MakeDay_last:
  assumes "1 \<le> m" and "m \<le> 12"
  shows "MakeDay yr m 0 = DayFromYear yr
           + (if m = 12 then DaysInYear yr - 1
              else month_start (if DaysInYear yr = 366 then 1 else 0) m - 1)"
proof (cases "m = 12")
  case True
  then show ?thesis
    by (simp add: MakeDay_def month_start_def DayFromYear_step)
next
  case False
  with assms have "m div 12 = 0" "m mod 12 = m" by simp_all
  with False show ?thesis by (simp add: MakeDay_def)
qed

lemma last_day_within:
  fixes m yr :: int
  assumes "1 \<le> m" and "m \<le> 12"
  shows "0 \<le> (if m = 12 then DaysInYear yr - 1
              else month_start (if DaysInYear yr = 366 then 1 else 0) m - 1)"
    and "(if m = 12 then DaysInYear yr - 1
              else month_start (if DaysInYear yr = 366 then 1 else 0) m - 1) < DaysInYear yr"
proof -
  show "0 \<le> (if m = 12 then DaysInYear yr - 1
              else month_start (if DaysInYear yr = 366 then 1 else 0) m - 1)"
    using assms DaysInYear_range [of yr]
    by (cases m rule: month_cases; simp add: month_start_def)
  show "(if m = 12 then DaysInYear yr - 1
              else month_start (if DaysInYear yr = 366 then 1 else 0) m - 1) < DaysInYear yr"
    using assms DaysInYear_range [of yr]
    by (cases m rule: month_cases; simp add: month_start_def)
qed

definition date_in_year :: "int \<Rightarrow> int \<Rightarrow> int" where
  "date_in_year w l =
     (let m = (if w < 31 then 0 else if w < 59 + l then 1 else if w < 90 + l then 2
         else if w < 120 + l then 3 else if w < 151 + l then 4 else if w < 181 + l then 5
         else if w < 212 + l then 6 else if w < 243 + l then 7 else if w < 273 + l then 8
         else if w < 304 + l then 9 else if w < 334 + l then 10 else 11 :: int)
      in if m = 0 then w + 1 else if m = 1 then w - 30 else if m = 2 then w - 58 - l
         else if m = 3 then w - 89 - l else if m = 4 then w - 119 - l
         else if m = 5 then w - 150 - l else if m = 6 then w - 180 - l
         else if m = 7 then w - 211 - l else if m = 8 then w - 242 - l
         else if m = 9 then w - 272 - l else if m = 10 then w - 303 - l else w - 333 - l)"

lemma DateFromDay_alt: "DateFromDay d = date_in_year (DayWithinYear d) (InLeapYear d)"
  by (simp only: DateFromDay_def MonthFromDay_def date_in_year_def Let_def)

lemma date_in_year_last:
  fixes m l :: int
  assumes "1 \<le> m" and "m \<le> 12" and "l = 0 \<or> l = 1"
  shows "date_in_year (if m = 12 then 365 + l - 1 else month_start l m - 1) l
       = (if m = 2 then 28 + l else if m = 4 \<or> m = 6 \<or> m = 9 \<or> m = 11 then 30 else 31)"
  using assms
  by (cases m rule: month_cases; auto simp: date_in_year_def month_start_def)

lemma DateFromDay_last:
  assumes "1 \<le> m" and "m \<le> 12"
  shows "DateFromDay (MakeDay yr m 0) = gregorian_month_length yr m"
proof -
  let ?l = "if DaysInYear yr = 366 then 1 else 0 :: int"
  let ?w = "if m = 12 then DaysInYear yr - 1 else month_start ?l m - 1"
  have w: "0 \<le> ?w" "?w < DaysInYear yr"
    using last_day_within [OF assms, of yr] by simp_all
  have d: "MakeDay yr m 0 = DayFromYear yr + ?w" by (rule MakeDay_last [OF assms])
  have dw: "DayWithinYear (MakeDay yr m 0) = ?w" and il: "InLeapYear (MakeDay yr m 0) = ?l"
    unfolding d using day_in_year(2,3) [OF w] by simp_all
  have days: "DaysInYear yr = 365 + ?l" using DaysInYear_range [of yr] by auto
  have l: "?l = 0 \<or> ?l = 1" by simp
  have g: "gregorian_month_length yr m =
      (if m = 2 then 28 + ?l else if m = 4 \<or> m = 6 \<or> m = 9 \<or> m = 11 then 30 else 31)"
    by (auto simp: gregorian_month_length_def leap_iff)
  have "?w = (if m = 12 then 365 + ?l - 1 else month_start ?l m - 1)"
    using days by simp
  then have "DateFromDay (MakeDay yr m 0)
      = date_in_year (if m = 12 then 365 + ?l - 1 else month_start ?l m - 1) ?l"
    by (simp only: DateFromDay_alt dw il)
  also have "\<dots> = (if m = 2 then 28 + ?l else if m = 4 \<or> m = 6 \<or> m = 9 \<or> m = 11 then 30 else 31)"
    using assms l by (rule date_in_year_last)
  finally show ?thesis by (simp only: g)
qed

lemma DayFromYear_bounds:
  "DayFromYear 275760 = 99999744" "DayFromYear (- 271820) = - 99999744"
  by (simp_all add: DayFromYear_def)

lemma new_Date_last:
  assumes "1 \<le> m" and "m \<le> 12" and "- 271820 \<le> yr" and "yr \<le> 275759"
  shows "\<bar>MakeDay yr m 0\<bar> \<le> 100000000"
proof -
  let ?l = "if DaysInYear yr = 366 then 1 else 0 :: int"
  let ?w = "if m = 12 then DaysInYear yr - 1 else month_start ?l m - 1"
  have w: "0 \<le> ?w" "?w < DaysInYear yr"
    using last_day_within [OF assms(1,2), of yr] by simp_all
  have d: "MakeDay yr m 0 = DayFromYear yr + ?w" by (rule MakeDay_last [OF assms(1,2)])
  have "DayFromYear yr + ?w < DayFromYear (yr + 1)" using w(2) by (simp add: DayFromYear_step)
  also have "\<dots> \<le> DayFromYear 275760"
    using assms(4) DayFromYear_less [of "yr + 1" 275760] by (cases "yr + 1 = 275760") auto
  finally have up: "MakeDay yr m 0 < 99999744" by (simp add: d DayFromYear_bounds)
  have "DayFromYear (- 271820) \<le> DayFromYear yr"
    using assms(3) DayFromYear_less [of "- 271820" yr] by (cases "yr = - 271820") auto
  also have "\<dots> \<le> DayFromYear yr + ?w" using w(1) by simp
  finally have "- 99999744 \<le> MakeDay yr m 0" by (simp add: d DayFromYear_bounds)
  with up show ?thesis by simp
qed

lemma month_length_1900:
  assumes "1 \<le> y" and "y \<le> 99"
  shows "gregorian_month_length (1900 + y) m = gregorian_month_length y m"
proof -
  have a: "(1900 + y) mod 4 = y mod 4" using mod_mult_self1 [of y 475 4] by (simp add: add.commute)
  have b: "(1900 + y) mod 100 = y mod 100" using mod_mult_self1 [of y 19 100] by (simp add: add.commute)
  have c: "y mod 100 \<noteq> 0" using assms by simp
  show ?thesis by (simp add: gregorian_month_length_def a b c)
qed

lemma getDate_last:
  assumes "1 \<le> m" and "m \<le> 12" and "- 271820 \<le> y" and "y \<le> 275759" and "y \<noteq> 0"
  shows "getDate (new_Date y m 0) = Some (gregorian_month_length y m)"
proof (cases "0 \<le> y \<and> y \<le> 99")
  case True
  with assms(5) have y: "1 \<le> y" "y \<le> 99" by simp_all
  have r: "- 271820 \<le> 1900 + y" "1900 + y \<le> 275759" using y by simp_all
  have "\<bar>MakeDay (1900 + y) m 0\<bar> \<le> 100000000"
    by (rule new_Date_last [OF assms(1,2) r])
  then have "getDate (new_Date y m 0) = Some (DateFromDay (MakeDay (1900 + y) m 0))"
    using True by (auto simp: getDate_def new_Date_def Let_def)
  then show ?thesis
    by (simp add: DateFromDay_last [OF assms(1,2)] month_length_1900 [OF y])
next
  case False
  have "\<bar>MakeDay y m 0\<bar> \<le> 100000000"
    by (rule new_Date_last [OF assms(1-4)])
  then have "getDate (new_Date y m 0) = Some (DateFromDay (MakeDay y m 0))"
    using False by (auto simp: getDate_def new_Date_def Let_def)
  then show ?thesis
    by (simp add: DateFromDay_last [OF assms(1,2)])
qed

lemmas parse_defs = parseInt_def trimStart_def isWhiteSpace_def digit_value_def js_def Let_def

lemma parseInt_examples:
  "parseInt (js ''0'') = Some 0" "parseInt (js ''13'') = Some 13"
  "parseInt (js ''2'') = Some 2" "parseInt (js ''2024'') = Some 2024"
  "parseInt (js ''2023'') = Some 2023" "parseInt (js ''2024abc'') = Some 2024"
  "parseInt (js ''abc'') = None" "parseInt (js ''12'') = Some 12"
  by (simp_all add: parse_defs)

lemma show_examples:
  "Number_toString (Some 2024) = js ''2024''" "Number_toString (Some 2023) = js ''2023''"
  "padStart2 (Number_toString (Some 2)) = js ''02''" "Number_toString (Some 29) = js ''29''"
  "Number_toString (Some 28) = js ''28''"
  by (simp_all add: Number_toString_def padStart2_def show_nat.simps js_def)

lemma calendar_window_accept:
  assumes "y \<noteq> []" and "m \<noteq> []" and "parseInt y = Some yearNum" and "parseInt m = Some monthNum"
    and "1 \<le> monthNum" and "monthNum \<le> 12"
  shows "calendar_window (Some y) (Some m) =
           Inr (Number_toString (Some yearNum) @ js ''-''
                  @ padStart2 (Number_toString (Some monthNum)) @ js ''-'' @ js ''01'',
                Number_toString (Some yearNum) @ js ''-''
                  @ padStart2 (Number_toString (Some monthNum)) @ js ''-''
                  @ Number_toString (getDate (new_Date yearNum monthNum 0)))"
  using assms by (simp add: calendar_window_def or_null_def Let_def)

lemma calendar_window_month:
  assumes "parseInt m = Some monthNum" and "monthNum < 1 \<or> 12 < monthNum"
  shows "\<exists>msg. calendar_window year (Some m) = Inl (400, msg)"
  using assms
  by (auto simp: calendar_window_def or_null_def split: option.splits)

text \<open>
  C7, as the code has it. The query is refused with 400 when year or month is missing
  or empty, when \<^verbatim>\<open>parseInt\<close> finds no number at the start of either, and when the
  month it reads is outside 1 to 12, as for month 0 and month 13. Every other request is
  accepted, whatever follows the leading number. For an accepted request the window runs
  from day 01 to the day \<^verbatim>\<open>new Date(yearNum, monthNum, 0).getDate()\<close>, and for every
  month of every year from -271820 to 275759 other than 0 that day is the length of the
  month in the Gregorian calendar: 29 for February 2024, 28 for February 2023.
\<close>

theorem calendar_validation:
  "(or_null year = None \<or> or_null month = None \<longrightarrow>
      calendar_window year month = Inl (400, ''Year and month are required''))
   \<and> (y \<noteq> [] \<and> m \<noteq> [] \<and> (parseInt y = None \<or> parseInt m = None) \<longrightarrow>
        calendar_window (Some y) (Some m) = Inl (400, ''Invalid year or month''))
   \<and> (y \<noteq> [] \<and> m \<noteq> [] \<and> parseInt m = Some monthNum \<and> (monthNum < 1 \<or> 12 < monthNum) \<longrightarrow>
        calendar_window (Some y) (Some m) = Inl (400, ''Invalid year or month''))
   \<and> (\<exists>msg. calendar_window year (Some (js ''0'')) = Inl (400, msg))
   \<and> (\<exists>msg. calendar_window year (Some (js ''13'')) = Inl (400, msg))
   \<and> (y \<noteq> [] \<and> m \<noteq> [] \<and> parseInt y = Some yearNum \<and> parseInt m = Some monthNum
        \<and> 1 \<le> monthNum \<and> monthNum \<le> 12 \<longrightarrow>
        calendar_window (Some y) (Some m) =
           Inr (Number_toString (Some yearNum) @ js ''-''
                  @ padStart2 (Number_toString (Some monthNum)) @ js ''-'' @ js ''01'',
                Number_toString (Some yearNum) @ js ''-''
                  @ padStart2 (Number_toString (Some monthNum)) @ js ''-''
                  @ Number_toString (getDate (new_Date yearNum monthNum 0)))
        \<and> (yearNum \<noteq> 0 \<and> - 271820 \<le> yearNum \<and> yearNum \<le> 275759 \<longrightarrow>
             getDate (new_Date yearNum monthNum 0)
               = Some (gregorian_month_length yearNum monthNum)))
   \<and> calendar_window (Some (js ''2024'')) (Some (js ''2''))
       = Inr (js ''2024-02-01'', js ''2024-02-29'')
   \<and> calendar_window (Some (js ''2023'')) (Some (js ''2''))
       = Inr (js ''2023-02-01'', js ''2023-02-28'')"
proof -
  have req: "calendar_window year month = Inl (400, ''Year and month are required'')"
    if "or_null year = None \<or> or_null month = None"
    using that by (auto simp: calendar_window_def split: option.splits)
  have nan: "calendar_window (Some y) (Some m) = Inl (400, ''Invalid year or month'')"
    if "y \<noteq> []" "m \<noteq> []" "parseInt y = None \<or> parseInt m = None"
    using that by (auto simp: calendar_window_def or_null_def split: option.splits)
  have range: "calendar_window (Some y) (Some m) = Inl (400, ''Invalid year or month'')"
    if "y \<noteq> []" "m \<noteq> []" "parseInt m = Some monthNum" "monthNum < 1 \<or> 12 < monthNum"
    using that by (auto simp: calendar_window_def or_null_def split: option.splits)
  have m0: "\<exists>msg. calendar_window year (Some (js ''0'')) = Inl (400, msg)"
    by (rule calendar_window_month [OF parseInt_examples(1)]) simp
  have m13: "\<exists>msg. calendar_window year (Some (js ''13'')) = Inl (400, msg)"
    by (rule calendar_window_month [OF parseInt_examples(2)]) simp
  have acc: "calendar_window (Some y) (Some m) =
           Inr (Number_toString (Some yearNum) @ js ''-''
                  @ padStart2 (Number_toString (Some monthNum)) @ js ''-'' @ js ''01'',
                Number_toString (Some yearNum) @ js ''-''
                  @ padStart2 (Number_toString (Some monthNum)) @ js ''-''
                  @ Number_toString (getDate (new_Date yearNum monthNum 0)))"
    if "y \<noteq> []" "m \<noteq> []" "parseInt y = Some yearNum" "parseInt m = Some monthNum"
       "1 \<le> monthNum" "monthNum \<le> 12"
    using that by (rule calendar_window_accept)
  have last: "getDate (new_Date yearNum monthNum 0) = Some (gregorian_month_length yearNum monthNum)"
    if "1 \<le> monthNum" "monthNum \<le> 12" "yearNum \<noteq> 0" "- 271820 \<le> yearNum" "yearNum \<le> 275759"
    using that by (intro getDate_last)
  have ne: "js ''2024'' \<noteq> []" "js ''2023'' \<noteq> []" "js ''2'' \<noteq> []" by (simp_all add: js_def)
  have g: "gregorian_month_length 2024 2 = 29" "gregorian_month_length 2023 2 = 28"
    by (simp_all add: gregorian_month_length_def)
  have d: "getDate (new_Date 2024 2 0) = Some 29" "getDate (new_Date 2023 2 0) = Some 28"
    using getDate_last [of 2 2024] getDate_last [of 2 2023] by (simp_all add: g)
  have f24: "calendar_window (Some (js ''2024'')) (Some (js ''2''))
       = Inr (js ''2024-02-01'', js ''2024-02-29'')"
    using calendar_window_accept [OF ne(1) ne(3) parseInt_examples(4) parseInt_examples(3)]
    by (simp add: d show_examples) (simp add: js_def)
  have f23: "calendar_window (Some (js ''2023'')) (Some (js ''2''))
       = Inr (js ''2023-02-01'', js ''2023-02-28'')"
    using calendar_window_accept [OF ne(2) ne(3) parseInt_examples(5) parseInt_examples(3)]
    by (simp add: d show_examples) (simp add: js_def)
  from req nan range m0 m13 acc last f24 f23 show ?thesis by blast
qed

theorem calendar_validation_witness:
  "or_null None = None
   \<and> calendar_window None (Some (js ''2'')) = Inl (400, ''Year and month are required'')
   \<and> js ''abc'' \<noteq> [] \<and> js ''13'' \<noteq> [] \<and> parseInt (js ''abc'') = None
   \<and> parseInt (js ''13'') = Some 13
   \<and> calendar_window (Some (js ''abc'')) (Some (js ''13'')) = Inl (400, ''Invalid year or month'')
   \<and> js ''2024'' \<noteq> [] \<and> js ''12'' \<noteq> []
   \<and> parseInt (js ''2024'') = Some 2024 \<and> parseInt (js ''12'') = Some 12
   \<and> calendar_window (Some (js ''2024'')) (Some (js ''13'')) = Inl (400, ''Invalid year or month'')
   \<and> calendar_window (Some (js ''2024'')) (Some (js ''12''))
       = Inr (js ''2024-12-01'', js ''2024-12-31'')
   \<and> getDate (new_Date 2024 12 0) = Some (gregorian_month_length 2024 12)
   \<and> gregorian_month_length 2024 12 = 31"
proof -
  have a: "or_null None = None" by (simp add: or_null_def)
  have ne: "js ''abc'' \<noteq> []" "js ''13'' \<noteq> []" "js ''2024'' \<noteq> []" "js ''12'' \<noteq> []"
    by (simp_all add: js_def)
  note p = parseInt_examples
  have g: "gregorian_month_length 2024 12 = 31" by (simp add: gregorian_month_length_def)
  have s: "Number_toString (Some 2024) = js ''2024''" "padStart2 (Number_toString (Some 12)) = js ''12''"
    "Number_toString (Some 31) = js ''31''"
    by (simp_all add: Number_toString_def padStart2_def show_nat.simps js_def)
  from calendar_validation [of None "Some (js ''2'')" "js ''abc''" "js ''13''" 13 0] a ne p
  have 1: "calendar_window None (Some (js ''2'')) = Inl (400, ''Year and month are required'')"
    and 2: "calendar_window (Some (js ''abc'')) (Some (js ''13'')) = Inl (400, ''Invalid year or month'')"
    by blast+
  from calendar_validation [of None None "js ''2024''" "js ''13''" 13 0] ne p
  have 3: "calendar_window (Some (js ''2024'')) (Some (js ''13'')) = Inl (400, ''Invalid year or month'')"
    by simp
  have r: "(1::int) \<le> 12" "(12::int) \<le> 12" "(2024::int) \<noteq> 0" "- 271820 \<le> (2024::int)"
    "(2024::int) \<le> 275759" by simp_all
  from calendar_validation [of None None "js ''2024''" "js ''12''" 12 2024] ne p r
  have 4: "calendar_window (Some (js ''2024'')) (Some (js ''12'')) =
           Inr (Number_toString (Some 2024) @ js ''-''
                  @ padStart2 (Number_toString (Some 12)) @ js ''-'' @ js ''01'',
                Number_toString (Some 2024) @ js ''-''
                  @ padStart2 (Number_toString (Some 12)) @ js ''-''
                  @ Number_toString (getDate (new_Date 2024 12 0)))"
    and 5: "getDate (new_Date 2024 12 0) = Some (gregorian_month_length 2024 12)"
    by blast+
  have 6: "calendar_window (Some (js ''2024'')) (Some (js ''12''))
       = Inr (js ''2024-12-01'', js ''2024-12-31'')"
    unfolding 4 5 g s by (simp add: js_def)
  from a 1 ne p 2 3 6 5 g show ?thesis by simp
qed

text \<open>
  C7 as stated fails: the year \<open>2024abc\<close> is not numeric, and the query accepts it as
  2024.
\<close>

theorem calendar_validation_counterexample:
  "\<not> list_all (\<lambda>c. 48 \<le> c \<and> c \<le> 57) (js ''2024abc'')
   \<and> calendar_window (Some (js ''2024abc'')) (Some (js ''2''))
       = Inr (js ''2024-02-01'', js ''2024-02-29'')"
proof -
  have ne: "js ''2024abc'' \<noteq> []" "js ''2'' \<noteq> []" by (simp_all add: js_def)
  have g: "gregorian_month_length 2024 2 = 29" by (simp add: gregorian_month_length_def)
  have d: "getDate (new_Date 2024 2 0) = Some 29"
    using getDate_last [of 2 2024] by (simp add: g)
  have "calendar_window (Some (js ''2024abc'')) (Some (js ''2''))
       = Inr (js ''2024-02-01'', js ''2024-02-29'')"
    using calendar_window_accept [OF ne parseInt_examples(6) parseInt_examples(3)]
    by (simp add: d show_examples) (simp add: js_def)
  moreover have "\<not> list_all (\<lambda>c. 48 \<le> c \<and> c \<le> 57) (js ''2024abc'')"
    by (simp add: js_def)
  ultimately show ?thesis by simp
qed

text \<open>
  Two inputs that pass the validation with a last day that is not a month length. Year 0
  is read by \<^verbatim>\<open>new Date\<close> as 1900, which is no leap year. A year outside the range of
  \<^verbatim>\<open>Date\<close> gives the invalid date.
\<close>

lemma calendar_year_zero:
  "calendar_window (Some (js ''0'')) (Some (js ''2'')) = Inr (js ''0-02-01'', js ''0-02-28'')"
  and "gregorian_month_length 0 2 = 29"
proof -
  have ne: "js ''0'' \<noteq> []" "js ''2'' \<noteq> []" by (simp_all add: js_def)
  have "\<bar>MakeDay 1900 2 0\<bar> \<le> 100000000" by (rule new_Date_last) simp_all
  then have "getDate (new_Date 0 2 0) = Some (DateFromDay (MakeDay 1900 2 0))"
    by (simp add: getDate_def new_Date_def)
  also have "DateFromDay (MakeDay 1900 2 0) = gregorian_month_length 1900 2"
    by (rule DateFromDay_last) simp_all
  also have "\<dots> = 28" by (simp add: gregorian_month_length_def)
  finally have d: "getDate (new_Date 0 2 0) = Some 28" .
  have s: "Number_toString (Some 0) = js ''0''" "padStart2 (Number_toString (Some 2)) = js ''02''"
    "Number_toString (Some 28) = js ''28''"
    by (simp_all add: Number_toString_def padStart2_def show_nat.simps js_def)
  show "calendar_window (Some (js ''0'')) (Some (js ''2'')) = Inr (js ''0-02-01'', js ''0-02-28'')"
    using calendar_window_accept [OF ne parseInt_examples(1) parseInt_examples(3)]
    by (simp add: d s) (simp add: js_def)
  show "gregorian_month_length 0 2 = 29" by (simp add: gregorian_month_length_def)
qed

end
